theory Spec2Isabelle
  imports Main "HOL-Library.Word" "HOL-Library.Mapping" "HOL-Library.AList_Mapping"
    "HOL-Library.Char_ord"
begin

unbundle bit_operations_syntax

section \<open>The LRU cache of \<open>internal/proxy/cache.go\<close>\<close>

text \<open>
  A Go \<open>[]byte\<close> is a sequence of 8-bit words; the \<open>nil\<close> slice that \<open>Get\<close> returns on a
  miss is the empty sequence. A Go \<open>string\<close> is a sequence of bytes, as Isabelle's
  \<open>string\<close> is.
\<close>

type_synonym byte = "8 word"
type_synonym bytes = "byte list"

text \<open>\<open>type CacheItem struct { key string; value []byte }\<close>\<close>

record CacheItem =
  key :: string
  "value" :: bytes

text \<open>
  A \<open>*list.Element\<close> is an address. The elements are objects of the Go heap: the cache
  reaches them through the map and through the list, and mutates the \<open>CacheItem\<close> an
  element's \<open>Value\<close> points to. The model keeps that part of the heap beside the
  fields of the struct:
  \<^item> \<open>capacity\<close>, \<open>cache\<close>, \<open>list\<close> are the fields of \<open>LRUCache\<close>; \<open>list\<close> holds
    the elements of the \<open>container/list\<close> from front to back;
  \<^item> \<open>items\<close> maps an element to the \<open>CacheItem\<close> its \<open>Value\<close> points to;
  \<^item> \<open>fresh\<close> is the next address the allocator hands out.
  The mutex \<open>mu\<close> is held from the first to the last statement of \<open>Get\<close> and \<open>Put\<close>; in
  this sequential model each of them is one atomic function.
\<close>

type_synonym Element = nat

record LRUCache =
  capacity :: int
  cache :: "(string, Element) mapping"
  list :: "Element list"
  items :: "Element \<rightharpoonup> CacheItem"
  fresh :: Element

text \<open>A failed type assertion or a nil dereference panics.\<close>

datatype error = Panic

subsection \<open>The operations of \<open>container/list\<close> the cache uses\<close>

text \<open>
  \<open>container/list\<close> belongs to Go's standard library; its operations are modelled
  after the library on the list of elements. \<open>MoveToFront\<close> does nothing when the
  element is not in the list or is already its front; \<open>Back\<close> is \<open>nil\<close> on the empty
  list; \<open>Remove\<close> does nothing when the element is not in the list.
\<close>

definition MoveToFront :: "Element \<Rightarrow> Element list \<Rightarrow> Element list" where
  "MoveToFront e l =
     (case l of
        [] \<Rightarrow> l
      | x # _ \<Rightarrow> if e \<notin> set l \<or> x = e then l else e # remove1 e l)"

definition Back :: "Element list \<Rightarrow> Element option" where
  "Back l = (if l = [] then None else Some (last l))"

definition Remove :: "Element \<Rightarrow> Element list \<Rightarrow> Element list" where
  "Remove e l = (if e \<in> set l then remove1 e l else l)"

subsection \<open>\<open>NewLRUCache\<close>, \<open>Get\<close>, \<open>Put\<close>\<close>

definition NewLRUCache :: "int \<Rightarrow> LRUCache" where
  "NewLRUCache cap =
     \<lparr>capacity = cap, cache = Mapping.empty, list = [], items = Map.empty, fresh = 0\<rparr>"

text \<open>
  \<open>Get\<close> returns the pair \<open>(value, found)\<close> and the cache after the call. The type
  assertion on \<open>elem.Value\<close> panics when the element holds no \<open>CacheItem\<close>.
\<close>

definition Get :: "LRUCache \<Rightarrow> string \<Rightarrow> error + ((bytes \<times> bool) \<times> LRUCache)" where
  "Get lru k =
     (case Mapping.lookup (cache lru) k of
        Some elem \<Rightarrow>
          (case items lru elem of
             None \<Rightarrow> Inl Panic
           | Some it \<Rightarrow> Inr ((value it, True), lru\<lparr>list := MoveToFront elem (list lru)\<rparr>))
      | None \<Rightarrow> Inr (([], False), lru))"

text \<open>
  The eviction step of \<open>Put\<close> (the \<open>if len(lru.cache) >= lru.capacity\<close> block): the
  key of the back element leaves the map and the element leaves the list.
\<close>

definition evict :: "LRUCache \<Rightarrow> error + LRUCache" where
  "evict lru =
     (if int (Mapping.size (cache lru)) \<ge> capacity lru then
        (case Back (list lru) of
           None \<Rightarrow> Inr lru
         | Some lastElem \<Rightarrow>
             (case items lru lastElem of
                None \<Rightarrow> Inl Panic
              | Some it \<Rightarrow>
                  Inr (lru\<lparr>cache := Mapping.delete (key it) (cache lru),
                            list := Remove lastElem (list lru)\<rparr>)))
      else Inr lru)"

text \<open>\<open>PushFront\<close> allocates a new element for the item and links it at the front.\<close>

definition PushFront :: "CacheItem \<Rightarrow> LRUCache \<Rightarrow> Element \<times> LRUCache" where
  "PushFront newItem lru =
     (let elem = fresh lru
      in (elem, lru\<lparr>list := elem # list lru,
                     items := (items lru)(elem \<mapsto> newItem),
                     fresh := Suc elem\<rparr>))"

text \<open>
  The last block of \<open>Put\<close>: a new item is allocated, pushed to the front of the list
  and registered in the map.
\<close>

definition add_new :: "string \<Rightarrow> bytes \<Rightarrow> LRUCache \<Rightarrow> LRUCache" where
  "add_new k v lru =
     (let newItem = \<lparr>key = k, value = v\<rparr>
      in case PushFront newItem lru of
           (elem, lru2) \<Rightarrow> lru2\<lparr>cache := Mapping.update k elem (cache lru2)\<rparr>)"

definition Put :: "LRUCache \<Rightarrow> string \<Rightarrow> bytes \<Rightarrow> error + LRUCache" where
  "Put lru k v =
     (case Mapping.lookup (cache lru) k of
        Some elem \<Rightarrow>
          (case items lru elem of
             None \<Rightarrow> Inl Panic
           | Some it \<Rightarrow>
               Inr (lru\<lparr>list := MoveToFront elem (list lru),
                         items := (items lru)(elem \<mapsto> it\<lparr>value := v\<rparr>)\<rparr>))
      | None \<Rightarrow>
          (case evict lru of
             Inl err \<Rightarrow> Inl err
           | Inr lru1 \<Rightarrow> Inr (add_new k v lru1)))"

subsection \<open>Sequences of operations\<close>

datatype op = OpGet string | OpPut string bytes

definition apply_op :: "LRUCache \<Rightarrow> op \<Rightarrow> error + LRUCache" where
  "apply_op lru x =
     (case x of
        OpGet k \<Rightarrow> (case Get lru k of Inl err \<Rightarrow> Inl err | Inr (_, lru') \<Rightarrow> Inr lru')
      | OpPut k v \<Rightarrow> Put lru k v)"

fun run :: "LRUCache \<Rightarrow> op list \<Rightarrow> error + LRUCache" where
  "run lru [] = Inr lru"
| "run lru (x # xs) = (case apply_op lru x of Inl err \<Rightarrow> Inl err | Inr lru' \<Rightarrow> run lru' xs)"

text \<open>
  \<open>observe\<close> runs a sequence of operations and collects what its \<open>Get\<close>s return.
\<close>

fun observe :: "LRUCache \<Rightarrow> op list \<Rightarrow> error + (bytes \<times> bool) list" where
  "observe lru [] = Inr []"
| "observe lru (OpGet k # xs) =
     (case Get lru k of
        Inl err \<Rightarrow> Inl err
      | Inr (r, lru') \<Rightarrow>
          (case observe lru' xs of Inl err \<Rightarrow> Inl err | Inr rs \<Rightarrow> Inr (r # rs)))"
| "observe lru (OpPut k v # xs) =
     (case Put lru k v of Inl err \<Rightarrow> Inl err | Inr lru' \<Rightarrow> observe lru' xs)"

text \<open>
  The touches of a run: a \<open>Put\<close> touches its key, a \<open>Get\<close> touches its key when it
  hits, and a \<open>Get\<close> that misses touches nothing. \<open>last_touch ts k\<close> is the position,
  counted from 1, of the last touch of \<open>k\<close> in \<open>ts\<close>, and 0 when \<open>k\<close> was never
  touched.
\<close>

definition touch_of :: "LRUCache \<Rightarrow> op \<Rightarrow> string option" where
  "touch_of lru x =
     (case x of
        OpGet k \<Rightarrow> (case Get lru k of Inr ((_, True), _) \<Rightarrow> Some k | _ \<Rightarrow> None)
      | OpPut k v \<Rightarrow> Some k)"

fun touches :: "LRUCache \<Rightarrow> op list \<Rightarrow> string option list" where
  "touches lru [] = []"
| "touches lru (x # xs) =
     touch_of lru x # (case apply_op lru x of Inl _ \<Rightarrow> [] | Inr lru' \<Rightarrow> touches lru' xs)"

definition last_touch :: "string option list \<Rightarrow> string \<Rightarrow> nat" where
  "last_touch ts k = length ts - length (takeWhile (\<lambda>t. t \<noteq> Some k) (rev ts))"

text \<open>\<open>peek\<close> reads the value stored for a key without touching the order.\<close>

definition peek :: "LRUCache \<Rightarrow> string \<Rightarrow> bytes option" where
  "peek lru k =
     (case Mapping.lookup (cache lru) k of
        None \<Rightarrow> None
      | Some e \<Rightarrow> map_option value (items lru e))"

subsection \<open>The invariant\<close>

text \<open>
  \<open>consistent\<close> says the map and the list describe the same entries: the map sends each
  of its keys to an element of the list whose item carries that key, each element of the
  list is the one the map holds for its item's key, no element occurs twice in the list,
  and the allocator has not yet handed out an address beyond those in use.
\<close>

definition item_key :: "LRUCache \<Rightarrow> Element \<Rightarrow> string option" where
  "item_key lru e = map_option key (items lru e)"

definition consistent :: "LRUCache \<Rightarrow> bool" where
  "consistent lru \<longleftrightarrow>
     finite (Mapping.keys (cache lru)) \<and> distinct (list lru) \<and>
     (\<forall>k \<in> Mapping.keys (cache lru).
        case Mapping.lookup (cache lru) k of
          None \<Rightarrow> False
        | Some e \<Rightarrow> e \<in> set (list lru) \<and> item_key lru e = Some k) \<and>
     (\<forall>e \<in> set (list lru).
        case item_key lru e of
          None \<Rightarrow> False
        | Some k \<Rightarrow> Mapping.lookup (cache lru) k = Some e) \<and>
     (\<forall>e \<in> set (list lru). e < fresh lru)"

text \<open>
  The invariant as the specification words it. \<open>one_entry\<close>: the key denotes exactly one
  entry of the order list, that is, the element the map holds for the key occurs once in
  the list and carries the key, and no other element of the list carries it.
\<close>

definition one_entry :: "LRUCache \<Rightarrow> string \<Rightarrow> bool" where
  "one_entry lru k \<longleftrightarrow>
     (case Mapping.lookup (cache lru) k of
        None \<Rightarrow> False
      | Some e \<Rightarrow> count_list (list lru) e = 1 \<and> item_key lru e = Some k) \<and>
     length (filter (\<lambda>e. item_key lru e = Some k) (list lru)) = 1"

definition invariant :: "LRUCache \<Rightarrow> bool" where
  "invariant lru \<longleftrightarrow>
     Mapping.size (cache lru) = length (list lru) \<and>
     int (length (list lru)) \<le> capacity lru \<and>
     (\<forall>k \<in> Mapping.keys (cache lru). one_entry lru k)"

text \<open>
  \<open>recency_sorted ts lru\<close>: read from front to back, the order list holds its entries
  from the most recently to the least recently touched, \<open>ts\<close> being the touches so far.
\<close>

definition elem_key :: "LRUCache \<Rightarrow> Element \<Rightarrow> string" where
  "elem_key lru e = (case items lru e of None \<Rightarrow> [] | Some it \<Rightarrow> key it)"

definition recency_sorted :: "string option list \<Rightarrow> LRUCache \<Rightarrow> bool" where
  "recency_sorted ts lru \<longleftrightarrow>
     sorted_wrt (\<lambda>a b. last_touch ts (elem_key lru b) < last_touch ts (elem_key lru a)) (list lru)"

section \<open>The handlers\<close>

subsection \<open>Requests, upstream responses and the effects of a handler\<close>

text \<open>
  Of the inbound \<open>*http.Request\<close> the handlers read \<open>r.URL.String()\<close> and
  \<open>r.URL.Path\<close>.
\<close>

record Request =
  URL_String :: string
  URL_Path :: string

text \<open>
  The body of an upstream response is a stream: it delivers \<open>content\<close> and then either
  ends or breaks off with an error (\<open>fails\<close>). \<open>io.ReadAll\<close> returns the content, or
  the error when the stream breaks off.
\<close>

record ReadCloser =
  content :: bytes
  fails :: bool

datatype read_error = ReadError

definition ReadAll :: "ReadCloser \<Rightarrow> read_error + bytes" where
  "ReadAll b = (if fails b then Inl ReadError else Inr (content b))"

text \<open>
  \<open>Header\<close> lists the header map in the order the \<open>range\<close> loop visits it.
\<close>

record Response =
  StatusCode :: int
  Header :: "(string \<times> string list) list"
  Body :: ReadCloser

text \<open>
  The outbound GET (\<open>client.Get\<close>, \<open>http.Get\<close>) is a parameter of the handlers: the
  network answers a URL with a response, or with \<open>None\<close> for a transport error
  (\<open>err != nil\<close>).
\<close>

type_synonym transport = "string \<Rightarrow> Response option"

text \<open>
  A handler acts on the world through calls, recorded in the order they are made:
  a line on standard output, the outbound GET, and the calls on the
  \<open>http.ResponseWriter\<close>. \<open>HttpError msg code\<close> is the call
  \<open>http.Error(w, msg, code)\<close>, which replies with status \<open>code\<close> and the plain-text
  message \<open>msg\<close> (the library ends the message with a newline). \<open>Write b\<close> on a
  writer that has no status yet replies with status 200. \<open>WriteHeader code\<close> is a call
  that returns; the library panics instead, before it writes anything, when the code is
  outside 100..999 (\<open>WriteHeader_ok\<close>). \<open>CopyBody b\<close> is the call
  \<open>io.Copy(w, resp.Body)\<close> on a body stream that delivers \<open>b\<close>: the writer is handed
  these bytes, in as many pieces as the library chooses, none when \<open>b\<close> is empty.
\<close>

datatype effect =
    Println "string list"
  | OutboundGet string
  | BodyClose
  | HeaderAdd string string
  | WriteHeader int
  | Write bytes
  | CopyBody bytes
  | HttpError string int

definition WriteHeader_ok :: "int \<Rightarrow> bool" where
  "WriteHeader_ok code \<longleftrightarrow> 100 \<le> code \<and> code \<le> 999"

definition StatusBadRequest :: int where "StatusBadRequest = 400"
definition StatusInternalServerError :: int where "StatusInternalServerError = 500"
definition StatusBadGateway :: int where "StatusBadGateway = 502"

subsection \<open>The caching handler of \<open>internal/proxy/cache.go\<close>\<close>

text \<open>\<open>var cache = NewLRUCache(10)\<close>\<close>

definition global_cache :: LRUCache where
  "global_cache = NewLRUCache 10"

text \<open>
  The handler takes the network and the state of the global cache, and returns the
  calls it made and the cache it leaves. A panic of a cache operation propagates. The
  deferred \<open>resp.Body.Close()\<close> runs when the handler returns.
\<close>

definition handleRequest :: "transport \<Rightarrow> LRUCache \<Rightarrow> Request \<Rightarrow> error + (effect list \<times> LRUCache)" where
  "handleRequest client c r =
     (let cacheKey = URL_String r
      in case Get c cacheKey of
           Inl err \<Rightarrow> Inl err
         | Inr ((cachedResp, found), c1) \<Rightarrow>
             if found then Inr ([Println [''Cache hit:'', cacheKey], Write cachedResp], c1)
             else
               (case client (URL_String r) of
                  None \<Rightarrow>
                    Inr ([OutboundGet (URL_String r),
                          HttpError ''Failed to fetch from target'' StatusBadGateway], c1)
                | Some resp \<Rightarrow>
                    (case ReadAll (Body resp) of
                       Inl _ \<Rightarrow>
                         Inr ([OutboundGet (URL_String r),
                               HttpError ''Failed to read response'' StatusInternalServerError,
                               BodyClose], c1)
                     | Inr body \<Rightarrow>
                         (case Put c1 cacheKey body of
                            Inl err \<Rightarrow> Inl err
                          | Inr c2 \<Rightarrow>
                              Inr ([OutboundGet (URL_String r), Write body, BodyClose], c2)))))"

subsection \<open>The forwarding handler (embedded target URL)\<close>

text \<open>\<open>strings.HasPrefix\<close> and \<open>strings.TrimPrefix\<close>.\<close>

definition HasPrefix :: "string \<Rightarrow> string \<Rightarrow> bool" where
  "HasPrefix s p \<longleftrightarrow> length s \<ge> length p \<and> take (length p) s = p"

definition TrimPrefix :: "string \<Rightarrow> string \<Rightarrow> string" where
  "TrimPrefix s p = (if HasPrefix s p then drop (length p) s else s)"

text \<open>
  \<open>url.QueryUnescape\<close> belongs to Go's standard library (\<open>net/url\<close>), not to the
  repository; it is modelled here after the library: a first pass counts the \<open>%\<close>
  signs and rejects one that is not followed by two hexadecimal digits, a second pass
  replaces each \<open>%XY\<close> by the byte it denotes and each \<open>+\<close> by a space.
\<close>

definition ishex :: "char \<Rightarrow> bool" where
  "ishex c \<longleftrightarrow>
     (CHR ''0'' \<le> c \<and> c \<le> CHR ''9'') \<or> (CHR ''a'' \<le> c \<and> c \<le> CHR ''f'') \<or>
     (CHR ''A'' \<le> c \<and> c \<le> CHR ''F'')"

definition byte_of :: "char \<Rightarrow> byte" where
  "byte_of c = of_char c"

definition char_of_byte :: "byte \<Rightarrow> char" where
  "char_of_byte b = char_of (unat b)"

definition unhex :: "char \<Rightarrow> byte" where
  "unhex c =
     (if CHR ''0'' \<le> c \<and> c \<le> CHR ''9'' then byte_of c - byte_of CHR ''0''
      else if CHR ''a'' \<le> c \<and> c \<le> CHR ''f'' then byte_of c - byte_of CHR ''a'' + 10
      else if CHR ''A'' \<le> c \<and> c \<le> CHR ''F'' then byte_of c - byte_of CHR ''A'' + 10
      else 0)"

datatype url_error = EscapeError string

fun unescape_scan :: "string \<Rightarrow> url_error + (nat \<times> bool)" where
  "unescape_scan [] = Inr (0, False)"
| "unescape_scan (c # s) =
     (if c = CHR ''%'' then
        (case s of
           a # b # rest \<Rightarrow>
             if \<not> ishex a \<or> \<not> ishex b then Inl (EscapeError (take 3 (c # s)))
             else (case unescape_scan rest of
                     Inl e \<Rightarrow> Inl e
                   | Inr (n, hasPlus) \<Rightarrow> Inr (Suc n, hasPlus))
         | _ \<Rightarrow> Inl (EscapeError (take 3 (c # s))))
      else if c = CHR ''+'' then
        (case unescape_scan s of Inl e \<Rightarrow> Inl e | Inr (n, _) \<Rightarrow> Inr (n, True))
      else unescape_scan s)"

fun unescape_build :: "string \<Rightarrow> string" where
  "unescape_build [] = []"
| "unescape_build (c # s) =
     (if c = CHR ''%'' then
        (case s of
           a # b # rest \<Rightarrow> char_of_byte (push_bit 4 (unhex a) OR unhex b) # unescape_build rest
         | _ \<Rightarrow> [])
      else if c = CHR ''+'' then CHR '' '' # unescape_build s
      else c # unescape_build s)"

definition QueryUnescape :: "string \<Rightarrow> url_error + string" where
  "QueryUnescape s =
     (case unescape_scan s of
        Inl e \<Rightarrow> Inl e
      | Inr (n, hasPlus) \<Rightarrow> if n = 0 \<and> \<not> hasPlus then Inr s else Inr (unescape_build s))"

text \<open>The two nested \<open>range\<close> loops that copy the response headers.\<close>

definition copy_headers :: "(string \<times> string list) list \<Rightarrow> effect list" where
  "copy_headers hs = concat (map (\<lambda>(k, values). map (HeaderAdd k) values) hs)"

text \<open>
  The handler returns the calls it made and how it ended: \<open>None\<close> when it returned,
  \<open>Some Panic\<close> when \<open>w.WriteHeader\<close> panicked on the upstream status code. The
  deferred \<open>resp.Body.Close()\<close> runs in both cases. The error of \<open>io.Copy\<close> is
  dropped by the handler.
\<close>

definition handleRequest_embedded :: "transport \<Rightarrow> Request \<Rightarrow> effect list \<times> error option" where
  "handleRequest_embedded get r =
     (case QueryUnescape (TrimPrefix (URL_Path r) ''/'') of
        Inl _ \<Rightarrow>
          ([Println [''Received request for:'', URL_String r],
            HttpError ''Invalid URL encoding'' StatusBadRequest], None)
      | Inr targetURL \<Rightarrow>
          if \<not> HasPrefix targetURL ''http://'' \<and> \<not> HasPrefix targetURL ''https://''
          then ([Println [''Received request for:'', URL_String r],
                 HttpError ''Invalid target URL'' StatusBadRequest], None)
          else
            (case get targetURL of
               None \<Rightarrow>
                 ([Println [''Received request for:'', URL_String r],
                   OutboundGet targetURL,
                   HttpError ''Failed to reach target server'' StatusBadGateway], None)
             | Some resp \<Rightarrow>
                 if WriteHeader_ok (StatusCode resp)
                 then
                   (Println [''Received request for:'', URL_String r] #
                    OutboundGet targetURL #
                    copy_headers (Header resp) @
                    [WriteHeader (StatusCode resp), CopyBody (content (Body resp)), BodyClose],
                    None)
                 else
                   (Println [''Received request for:'', URL_String r] #
                    OutboundGet targetURL #
                    copy_headers (Header resp) @ [BodyClose],
                    Some Panic)))"

text \<open>
  The decoding as the specification words it, to compare the code with. A hexadecimal
  digit has a value; \<open>spec_percent_decode\<close> replaces each \<open>%XY\<close> by the byte with the
  value \<open>16 * X + Y\<close>, leaves every other character as it is, and fails on a \<open>%\<close>
  that is not followed by two hexadecimal digits. \<open>spec_strip_separator\<close> removes one
  leading \<open>/\<close>. \<open>plus_to_space\<close> is what the code does beyond the specification's
  words: every \<open>+\<close> becomes a space.
\<close>

definition hex_digit :: "char \<Rightarrow> nat option" where
  "hex_digit c = map_of (zip ''0123456789abcdef'' [0..<16] @ zip ''ABCDEF'' [10..<16]) c"

fun spec_percent_decode :: "string \<Rightarrow> string option" where
  "spec_percent_decode [] = Some []"
| "spec_percent_decode (c # s) =
     (if c = CHR ''%'' then
        (case s of
           a # b # rest \<Rightarrow>
             (case (hex_digit a, hex_digit b) of
                (Some x, Some y) \<Rightarrow>
                  map_option ((#) (char_of (16 * x + y))) (spec_percent_decode rest)
              | _ \<Rightarrow> None)
         | _ \<Rightarrow> None)
      else map_option ((#) c) (spec_percent_decode s))"

definition spec_strip_separator :: "string \<Rightarrow> string" where
  "spec_strip_separator s = (case s of [] \<Rightarrow> [] | c # q \<Rightarrow> if c = CHR ''/'' then q else s)"

definition plus_to_space :: "string \<Rightarrow> string" where
  "plus_to_space s = map (\<lambda>c. if c = CHR ''+'' then CHR '' '' else c) s"

text \<open>
  What a handler's calls say about the reply: the outbound GETs it issued, the error
  replies it wrote, the bodies it wrote, which calls are replies and which set a status
  code or a header.
\<close>

definition outbound :: "effect list \<Rightarrow> string list" where
  "outbound es = concat (map (\<lambda>e. case e of OutboundGet u \<Rightarrow> [u] | _ \<Rightarrow> []) es)"

definition error_replies :: "effect list \<Rightarrow> (int \<times> string) list" where
  "error_replies es = concat (map (\<lambda>e. case e of HttpError m c \<Rightarrow> [(c, m)] | _ \<Rightarrow> []) es)"

definition body_writes :: "effect list \<Rightarrow> bytes list" where
  "body_writes es = concat (map (\<lambda>e. case e of Write b \<Rightarrow> [b] | _ \<Rightarrow> []) es)"

definition is_reply :: "effect \<Rightarrow> bool" where
  "is_reply e =
     (case e of Write _ \<Rightarrow> True | CopyBody _ \<Rightarrow> True | HttpError _ _ \<Rightarrow> True | _ \<Rightarrow> False)"

definition is_header_call :: "effect \<Rightarrow> bool" where
  "is_header_call e = (case e of HeaderAdd _ _ \<Rightarrow> True | WriteHeader _ \<Rightarrow> True | _ \<Rightarrow> False)"

subsection \<open>Example states\<close>

text \<open>
  The cache of capacity 2 after \<open>Put(a,1); Put(b,2); Get(a)\<close>: \<open>a\<close> is at the front,
  \<open>b\<close> at the back.
\<close>

definition example_ab :: LRUCache where
  "example_ab =
     \<lparr>capacity = 2,
      cache = Mapping.update ''b'' 1 (Mapping.update ''a'' 0 Mapping.empty),
      list = [0, 1],
      items = [0 \<mapsto> \<lparr>key = ''a'', value = [1]\<rparr>, 1 \<mapsto> \<lparr>key = ''b'', value = [2]\<rparr>],
      fresh = 2\<rparr>"

definition example_ops :: "op list" where
  "example_ops = [OpPut ''a'' [1], OpPut ''b'' [2], OpGet ''a'']"

text \<open>
  A request for \<open>http://example.com/\<close>, a cache that holds an entry for it, an upstream
  response with status 404 and one whose body breaks off.
\<close>

definition example_req :: Request where
  "example_req = \<lparr>URL_String = ''http://example.com/'', URL_Path = ''/''\<rparr>"

definition example_hit :: LRUCache where
  "example_hit =
     \<lparr>capacity = 10,
      cache = Mapping.update ''http://example.com/'' 0 Mapping.empty,
      list = [0],
      items = [0 \<mapsto> \<lparr>key = ''http://example.com/'', value = [104, 105]\<rparr>],
      fresh = 1\<rparr>"

definition resp_404 :: Response where
  "resp_404 =
     \<lparr>StatusCode = 404, Header = [(''Content-Type'', [''text/html''])],
      Body = \<lparr>content = [110, 111], fails = False\<rparr>\<rparr>"

definition resp_broken :: Response where
  "resp_broken = \<lparr>StatusCode = 200, Header = [], Body = \<lparr>content = [110], fails = True\<rparr>\<rparr>"

text \<open>
  Requests to the forwarding handler. \<open>r.URL.String()\<close> escapes the path again, so a
  path that holds a \<open>%\<close> comes from a request line that holds \<open>%25\<close>:
  \<^item> \<open>req_bad_escape\<close>: the path \<open>/%zz\<close>, which does not decode;
  \<^item> \<open>req_no_scheme\<close>: the path \<open>/example.com\<close>, which names no scheme;
  \<^item> \<open>req_escaped\<close>: the path \<open>/http%3A%2F%2Fexample.com\<close>;
  \<^item> \<open>req_unescaped\<close>: the request line \<open>/http%3A%2F%2Fexample.com\<close>, whose path the
    server has unescaped;
  \<^item> \<open>req_plus\<close>: the path \<open>/http%3A%2F%2Fa.com%2Fx+y\<close>.
  \<open>net_down\<close> is the network on which every GET fails, \<open>net_404\<close> the one that answers
  every GET with \<open>resp_404\<close>.
\<close>

definition req_bad_escape :: Request where
  "req_bad_escape = \<lparr>URL_String = ''/%25zz'', URL_Path = ''/%zz''\<rparr>"

definition req_no_scheme :: Request where
  "req_no_scheme = \<lparr>URL_String = ''/example.com'', URL_Path = ''/example.com''\<rparr>"

definition req_escaped :: Request where
  "req_escaped =
     \<lparr>URL_String = ''/http%253A%252F%252Fexample.com'', URL_Path = ''/http%3A%2F%2Fexample.com''\<rparr>"

definition req_unescaped :: Request where
  "req_unescaped =
     \<lparr>URL_String = ''/http%3A%2F%2Fexample.com'', URL_Path = ''/http://example.com''\<rparr>"

definition req_plus :: Request where
  "req_plus =
     \<lparr>URL_String = ''/http%253A%252F%252Fa.com%252Fx+y'',
      URL_Path = ''/http%3A%2F%2Fa.com%2Fx+y''\<rparr>"

definition net_down :: transport where
  "net_down u = None"

definition net_404 :: transport where
  "net_404 u = Some resp_404"

section \<open>Properties of the cache\<close>

lemma set_MoveToFront: "set (MoveToFront e l) = set l"
  by (auto simp: MoveToFront_def split: list.splits)

lemma distinct_MoveToFront: "distinct l \<Longrightarrow> distinct (MoveToFront e l)"
  by (auto simp: MoveToFront_def split: list.splits)

lemma length_MoveToFront: "length (MoveToFront e l) = length l"
proof (cases l)
  case Nil
  then show ?thesis by (simp add: MoveToFront_def)
next
  case (Cons x xs)
  show ?thesis
  proof (cases "e \<notin> set l \<or> x = e")
    case True
    with Cons show ?thesis by (simp add: MoveToFront_def)
  next
    case False
    then have "length (remove1 e l) = length l - 1" "length l > 0"
      by (auto simp: length_remove1)
    with False Cons show ?thesis by (simp add: MoveToFront_def)
  qed
qed

lemma consistent_lookup:
  assumes "consistent s" "Mapping.lookup (cache s) k = Some e"
  shows "e \<in> set (list s) \<and> item_key s e = Some k"
proof -
  from assms(2) have "k \<in> Mapping.keys (cache s)"
    by (simp add: keys_dom_lookup domI)
  with assms show ?thesis
    by (auto simp: consistent_def)
qed

lemma consistent_elem:
  assumes "consistent s" "e \<in> set (list s)"
  shows "\<exists>k. item_key s e = Some k \<and> Mapping.lookup (cache s) k = Some e"
  using assms by (auto simp: consistent_def split: option.splits)

lemma consistent_size:
  assumes "consistent s"
  shows "Mapping.size (cache s) = length (list s)"
proof -
  let ?f = "\<lambda>k. the (Mapping.lookup (cache s) k)"
  have inj: "inj_on ?f (Mapping.keys (cache s))"
  proof (rule inj_onI)
    fix k1 k2
    assume a: "k1 \<in> Mapping.keys (cache s)" "k2 \<in> Mapping.keys (cache s)" "?f k1 = ?f k2"
    from a(1) obtain e1 where e1: "Mapping.lookup (cache s) k1 = Some e1"
      by (auto dest: in_keysD)
    from a(2) obtain e2 where e2: "Mapping.lookup (cache s) k2 = Some e2"
      by (auto dest: in_keysD)
    from a(3) e1 e2 have "e1 = e2" by simp
    with consistent_lookup[OF assms e1] consistent_lookup[OF assms e2]
    show "k1 = k2" by simp
  qed
  have img: "?f ` Mapping.keys (cache s) = set (list s)"
  proof (rule set_eqI, rule iffI)
    fix e assume "e \<in> ?f ` Mapping.keys (cache s)"
    then obtain k where k: "k \<in> Mapping.keys (cache s)" "e = ?f k" by auto
    from k(1) obtain e' where e': "Mapping.lookup (cache s) k = Some e'"
      by (auto dest: in_keysD)
    with k(2) consistent_lookup[OF assms e'] show "e \<in> set (list s)" by simp
  next
    fix e assume "e \<in> set (list s)"
    from consistent_elem[OF assms this] obtain k
      where k: "Mapping.lookup (cache s) k = Some e" by auto
    then have "k \<in> Mapping.keys (cache s)" by (simp add: keys_dom_lookup domI)
    with k show "e \<in> ?f ` Mapping.keys (cache s)" by force
  qed
  have "card (Mapping.keys (cache s)) = card (set (list s))"
    using card_image[OF inj] img by simp
  also have "\<dots> = length (list s)"
    using assms by (simp add: consistent_def distinct_card)
  finally show ?thesis using assms by (simp add: Mapping.size_def consistent_def)
qed

lemma consistent_New: "consistent (NewLRUCache cap)"
  by (simp add: consistent_def NewLRUCache_def)

lemma in_keys_iff: "k \<in> Mapping.keys m \<longleftrightarrow> Mapping.lookup m k \<noteq> None"
  by (auto simp: keys_dom_lookup)

lemma item_key_updates [simp]:
  "item_key (s\<lparr>list := l\<rparr>) = item_key s"
  "item_key (s\<lparr>cache := c\<rparr>) = item_key s"
  "item_key (s\<lparr>fresh := n\<rparr>) = item_key s"
  by (simp_all add: item_key_def fun_eq_iff)

lemma consistentI:
  assumes "finite (Mapping.keys (cache s))" "distinct (list s)"
    and "\<And>k e. Mapping.lookup (cache s) k = Some e \<Longrightarrow> e \<in> set (list s) \<and> item_key s e = Some k"
    and "\<And>e. e \<in> set (list s) \<Longrightarrow> \<exists>k. item_key s e = Some k \<and> Mapping.lookup (cache s) k = Some e"
    and "\<And>e. e \<in> set (list s) \<Longrightarrow> e < fresh s"
  shows "consistent s"
  unfolding consistent_def
proof (intro conjI ballI)
  fix k assume "k \<in> Mapping.keys (cache s)"
  then obtain e where "Mapping.lookup (cache s) k = Some e" by (auto dest: in_keysD)
  with assms(3)[OF this]
  show "case Mapping.lookup (cache s) k of None \<Rightarrow> False
        | Some e \<Rightarrow> e \<in> set (list s) \<and> item_key s e = Some k" by simp
next
  fix e assume "e \<in> set (list s)"
  from assms(4)[OF this]
  show "case item_key s e of None \<Rightarrow> False | Some k \<Rightarrow> Mapping.lookup (cache s) k = Some e"
    by auto
qed (use assms in auto)

lemma consistent_fresh: "consistent s \<Longrightarrow> e \<in> set (list s) \<Longrightarrow> e < fresh s"
  by (simp add: consistent_def)

lemma consistent_distinct: "consistent s \<Longrightarrow> distinct (list s)"
  by (simp add: consistent_def)

lemma consistent_finite: "consistent s \<Longrightarrow> finite (Mapping.keys (cache s))"
  by (simp add: consistent_def)

lemma consistent_items:
  assumes "consistent s" "Mapping.lookup (cache s) k = Some e"
  shows "\<exists>it. items s e = Some it \<and> key it = k"
  using consistent_lookup[OF assms] by (auto simp: item_key_def)

text \<open>Moving an element to the front keeps the invariant.\<close>

lemma consistent_MoveToFront:
  assumes "consistent s"
  shows "consistent (s\<lparr>list := MoveToFront e (list s)\<rparr>)"
proof (rule consistentI)
  show "finite (Mapping.keys (cache (s\<lparr>list := MoveToFront e (list s)\<rparr>)))"
    using consistent_finite[OF assms] by simp
  show "distinct (list (s\<lparr>list := MoveToFront e (list s)\<rparr>))"
    using consistent_distinct[OF assms] by (simp add: distinct_MoveToFront)
next
  fix k e'
  assume "Mapping.lookup (cache (s\<lparr>list := MoveToFront e (list s)\<rparr>)) k = Some e'"
  then have "Mapping.lookup (cache s) k = Some e'" by simp
  from consistent_lookup[OF assms this]
  show "e' \<in> set (list (s\<lparr>list := MoveToFront e (list s)\<rparr>)) \<and>
        item_key (s\<lparr>list := MoveToFront e (list s)\<rparr>) e' = Some k"
    by (simp add: set_MoveToFront item_key_def)
next
  fix e'
  assume "e' \<in> set (list (s\<lparr>list := MoveToFront e (list s)\<rparr>))"
  then have m: "e' \<in> set (list s)" by (simp add: set_MoveToFront)
  from consistent_elem[OF assms m]
  show "\<exists>k. item_key (s\<lparr>list := MoveToFront e (list s)\<rparr>) e' = Some k \<and>
            Mapping.lookup (cache (s\<lparr>list := MoveToFront e (list s)\<rparr>)) k = Some e'"
    by (simp add: item_key_def)
  from consistent_fresh[OF assms m]
  show "e' < fresh (s\<lparr>list := MoveToFront e (list s)\<rparr>)" by simp
qed

text \<open>Overwriting the value of an item keeps the invariant: keys are untouched.\<close>

lemma consistent_set_value:
  assumes "consistent s" "items s e = Some it"
  shows "consistent (s\<lparr>items := (items s)(e \<mapsto> it\<lparr>value := v\<rparr>)\<rparr>)"
proof -
  let ?s = "s\<lparr>items := (items s)(e \<mapsto> it\<lparr>value := v\<rparr>)\<rparr>"
  have ik: "item_key ?s = item_key s"
    using assms(2) by (auto simp: item_key_def fun_eq_iff)
  have "cache ?s = cache s" "list ?s = list s" "fresh ?s = fresh s" by simp_all
  with ik assms(1) show ?thesis by (simp add: consistent_def cong: option.case_cong)
qed

text \<open>Get.\<close>

lemma Get_hit:
  assumes "consistent s" "Mapping.lookup (cache s) k = Some e"
  shows "\<exists>it. items s e = Some it \<and> key it = k \<and>
           Get s k = Inr ((value it, True), s\<lparr>list := MoveToFront e (list s)\<rparr>)"
  using consistent_items[OF assms] assms(2) by (auto simp: Get_def)

lemma Get_miss:
  "Mapping.lookup (cache s) k = None \<Longrightarrow> Get s k = Inr (([], False), s)"
  by (simp add: Get_def)

lemma Get_consistent:
  assumes "consistent s"
  shows "\<exists>r s'. Get s k = Inr (r, s') \<and> consistent s' \<and> capacity s' = capacity s \<and>
           length (list s') = length (list s)"
proof (cases "Mapping.lookup (cache s) k")
  case None
  with assms show ?thesis
    by (intro exI[of _ "([], False)"] exI[of _ s]) (simp add: Get_miss)
next
  case (Some e)
  from Get_hit[OF assms Some] consistent_MoveToFront[OF assms, of e]
  show ?thesis by (auto simp: length_MoveToFront)
qed

text \<open>The eviction step.\<close>

lemma remove1_last:
  assumes "distinct l" "l \<noteq> []"
  shows "remove1 (last l) l = butlast l"
proof -
  from assms(2) obtain xs x where l: "l = xs @ [x]"
    by (metis append_butlast_last_id)
  with assms(1) have "x \<notin> set xs" by simp
  with l show ?thesis by (simp add: remove1_append)
qed

lemma evict_skip:
  "int (Mapping.size (cache s)) < capacity s \<Longrightarrow> evict s = Inr s"
  by (simp add: evict_def)

lemma evict_empty:
  "list s = [] \<Longrightarrow> evict s = Inr s"
  by (simp add: evict_def Back_def)

lemma evict_full:
  assumes "consistent s" "int (Mapping.size (cache s)) \<ge> capacity s" "list s \<noteq> []"
  shows "\<exists>it. items s (last (list s)) = Some it \<and>
           Mapping.lookup (cache s) (key it) = Some (last (list s)) \<and>
           evict s = Inr (s\<lparr>cache := Mapping.delete (key it) (cache s),
                            list := butlast (list s)\<rparr>)"
proof -
  have m: "last (list s) \<in> set (list s)" using assms(3) by simp
  from consistent_elem[OF assms(1) m] obtain it
    where it: "items s (last (list s)) = Some it"
      and lk: "Mapping.lookup (cache s) (key it) = Some (last (list s))"
    by (auto simp: item_key_def)
  have "remove1 (last (list s)) (list s) = butlast (list s)"
    using consistent_distinct[OF assms(1)] assms(3) by (rule remove1_last)
  with it lk m assms(2,3) show ?thesis
    by (simp add: evict_def Back_def Remove_def)
qed

lemma consistent_drop_last:
  assumes c: "consistent s" and ne: "list s \<noteq> []"
    and it: "items s (last (list s)) = Some it"
  shows "consistent (s\<lparr>cache := Mapping.delete (key it) (cache s), list := butlast (list s)\<rparr>)"
    (is "consistent ?t")
proof (rule consistentI)
  have d: "distinct (list s)" by (rule consistent_distinct[OF c])
  have split: "list s = butlast (list s) @ [last (list s)]" using ne by simp
  have notin: "last (list s) \<notin> set (butlast (list s))"
  proof -
    from d split have "distinct (butlast (list s) @ [last (list s)])" by simp
    then show ?thesis by simp
  qed
  have sub: "\<And>e. e \<in> set (butlast (list s)) \<Longrightarrow> e \<in> set (list s)"
    by (rule in_set_butlastD)
  have lastkey: "item_key s (last (list s)) = Some (key it)"
    using it by (simp add: item_key_def)
  show "finite (Mapping.keys (cache ?t))" using consistent_finite[OF c] by simp
  show "distinct (list ?t)" using d by (simp add: distinct_butlast)
  {
    fix k e assume a: "Mapping.lookup (cache ?t) k = Some e"
    then have kne: "k \<noteq> key it" by (auto simp: lookup_delete)
    with a have lk: "Mapping.lookup (cache s) k = Some e" by simp
    from consistent_lookup[OF c lk] have e: "e \<in> set (list s)" "item_key s e = Some k" by auto
    with kne lastkey have "e \<noteq> last (list s)" by auto
    moreover from e(1) split have "e \<in> set (butlast (list s) @ [last (list s)])" by simp
    ultimately have "e \<in> set (butlast (list s))" by simp
    with e(2) show "e \<in> set (list ?t) \<and> item_key ?t e = Some k"
      by simp
  }
  {
    fix e assume a: "e \<in> set (list ?t)"
    then have eb: "e \<in> set (butlast (list s))" by simp
    from consistent_elem[OF c sub[OF eb]] obtain k
      where k: "item_key s e = Some k" "Mapping.lookup (cache s) k = Some e" by auto
    have "last (list s) \<in> set (list s)" using ne by simp
    from consistent_elem[OF c this] lastkey
    have "Mapping.lookup (cache s) (key it) = Some (last (list s))" by auto
    with k(2) eb notin have "k \<noteq> key it" by auto
    with k show "\<exists>k. item_key ?t e = Some k \<and> Mapping.lookup (cache ?t) k = Some e"
      by simp
    from consistent_fresh[OF c sub[OF eb]] show "e < fresh ?t" by simp
  }
qed

lemma evict_consistent:
  assumes c: "consistent s"
  shows "\<exists>s1. evict s = Inr s1 \<and> consistent s1 \<and> capacity s1 = capacity s \<and>
           fresh s1 = fresh s \<and> items s1 = items s \<and>
           (Mapping.lookup (cache s) k = None \<longrightarrow> Mapping.lookup (cache s1) k = None) \<and>
           (0 < capacity s \<longrightarrow> int (length (list s)) \<le> capacity s \<longrightarrow>
              int (length (list s1)) < capacity s)"
proof -
  have sz: "Mapping.size (cache s) = length (list s)" by (rule consistent_size[OF c])
  consider (room) "int (Mapping.size (cache s)) < capacity s"
    | (empty) "int (Mapping.size (cache s)) \<ge> capacity s" "list s = []"
    | (full) "int (Mapping.size (cache s)) \<ge> capacity s" "list s \<noteq> []"
    by linarith
  then show ?thesis
  proof cases
    case room
    with c sz show ?thesis by (simp add: evict_skip)
  next
    case empty
    with c show ?thesis by (simp add: evict_empty)
  next
    case full
    from evict_full[OF c full] obtain it
      where it: "items s (last (list s)) = Some it"
        and ev: "evict s = Inr (s\<lparr>cache := Mapping.delete (key it) (cache s),
                                   list := butlast (list s)\<rparr>)" by auto
    have "Mapping.lookup (cache s) k = None \<longrightarrow>
            Mapping.lookup (Mapping.delete (key it) (cache s)) k = None"
      by (cases "k = key it") simp_all
    moreover have "length (list s) > 0" using full(2) by simp
    ultimately show ?thesis
      using ev consistent_drop_last[OF c full(2) it] by auto
  qed
qed

lemma add_new_eq:
  "add_new k v s1 =
     s1\<lparr>list := fresh s1 # list s1,
        items := (items s1)(fresh s1 \<mapsto> \<lparr>key = k, value = v\<rparr>),
        fresh := Suc (fresh s1),
        cache := Mapping.update k (fresh s1) (cache s1)\<rparr>"
  by (simp add: add_new_def PushFront_def Let_def)

lemma Put_hit:
  assumes "consistent s" "Mapping.lookup (cache s) k = Some e"
  shows "\<exists>it. items s e = Some it \<and> key it = k \<and>
           Put s k v = Inr (s\<lparr>list := MoveToFront e (list s),
                              items := (items s)(e \<mapsto> it\<lparr>value := v\<rparr>)\<rparr>)"
  using consistent_items[OF assms] assms(2) by (auto simp: Put_def)

lemma Put_miss:
  assumes "Mapping.lookup (cache s) k = None" "evict s = Inr s1"
  shows "Put s k v = Inr (add_new k v s1)"
  using assms by (simp add: Put_def)

lemma consistent_add_new:
  assumes c: "consistent s1" and miss: "Mapping.lookup (cache s1) k = None"
  shows "consistent (add_new k v s1)" (is "consistent ?t")
proof (rule consistentI)
  have fr: "fresh s1 \<notin> set (list s1)"
    using consistent_fresh[OF c, of "fresh s1"] by auto
  have [simp]: "cache ?t = Mapping.update k (fresh s1) (cache s1)"
    "list ?t = fresh s1 # list s1" "fresh ?t = Suc (fresh s1)"
    "items ?t = (items s1)(fresh s1 \<mapsto> \<lparr>key = k, value = v\<rparr>)"
    by (simp_all add: add_new_eq)
  have ik_new: "item_key ?t (fresh s1) = Some k" by (simp add: item_key_def)
  have ik_old: "\<And>e. e \<noteq> fresh s1 \<Longrightarrow> item_key ?t e = item_key s1 e"
    by (simp add: item_key_def)
  show "finite (Mapping.keys (cache ?t))" using consistent_finite[OF c] by simp
  show "distinct (list ?t)" using consistent_distinct[OF c] fr by simp
  {
    fix k' e assume a: "Mapping.lookup (cache ?t) k' = Some e"
    show "e \<in> set (list ?t) \<and> item_key ?t e = Some k'"
    proof (cases "k' = k")
      case True
      with a have "e = fresh s1" by simp
      with True ik_new show ?thesis by simp
    next
      case False
      with a have lk: "Mapping.lookup (cache s1) k' = Some e" by (simp add: lookup_update')
      from consistent_lookup[OF c lk] have e: "e \<in> set (list s1)" "item_key s1 e = Some k'"
        by auto
      with fr have "e \<noteq> fresh s1" by auto
      with e ik_old show ?thesis by simp
    qed
  }
  {
    fix e assume a: "e \<in> set (list ?t)"
    show "\<exists>k'. item_key ?t e = Some k' \<and> Mapping.lookup (cache ?t) k' = Some e"
    proof (cases "e = fresh s1")
      case True
      with ik_new show ?thesis by simp
    next
      case False
      with a have m: "e \<in> set (list s1)" by simp
      from consistent_elem[OF c m] obtain k'
        where k': "item_key s1 e = Some k'" "Mapping.lookup (cache s1) k' = Some e" by auto
      with miss have "k' \<noteq> k" by auto
      with k' False ik_old show ?thesis by (simp add: lookup_update')
    qed
    show "e < fresh ?t"
      using a consistent_fresh[OF c, of e] by auto
  }
qed

lemma Put_consistent:
  assumes c: "consistent s"
  shows "\<exists>s'. Put s k v = Inr s' \<and> consistent s' \<and> capacity s' = capacity s \<and>
           (0 < capacity s \<longrightarrow> int (length (list s)) \<le> capacity s \<longrightarrow>
              int (length (list s')) \<le> capacity s)"
proof (cases "Mapping.lookup (cache s) k")
  case (Some e)
  from Put_hit[OF c Some, of v] obtain it
    where it: "items s e = Some it"
      and p: "Put s k v = Inr (s\<lparr>list := MoveToFront e (list s),
                                 items := (items s)(e \<mapsto> it\<lparr>value := v\<rparr>)\<rparr>)" by auto
  have "consistent (s\<lparr>list := MoveToFront e (list s)\<rparr>)" (is "consistent ?m")
    by (rule consistent_MoveToFront[OF c])
  moreover have "items ?m e = Some it" using it by simp
  ultimately have "consistent (?m\<lparr>items := (items ?m)(e \<mapsto> it\<lparr>value := v\<rparr>)\<rparr>)"
    by (rule consistent_set_value)
  with p show ?thesis by (simp add: length_MoveToFront)
next
  case None
  from evict_consistent[OF c, of k] None obtain s1
    where s1: "evict s = Inr s1" "consistent s1" "capacity s1 = capacity s"
      "Mapping.lookup (cache s1) k = None"
      "0 < capacity s \<longrightarrow> int (length (list s)) \<le> capacity s \<longrightarrow>
         int (length (list s1)) < capacity s"
    by auto
  have "Put s k v = Inr (add_new k v s1)" by (rule Put_miss[OF None s1(1)])
  moreover have "consistent (add_new k v s1)" by (rule consistent_add_new[OF s1(2,4)])
  moreover have "capacity (add_new k v s1) = capacity s" using s1(3) by (simp add: add_new_eq)
  moreover have "length (list (add_new k v s1)) = Suc (length (list s1))"
    by (simp add: add_new_eq)
  ultimately show ?thesis using s1(5) by auto
qed

lemma distinct_count_one: "distinct l \<Longrightarrow> e \<in> set l \<Longrightarrow> count_list l e = 1"
  by (induction l) auto

lemma consistent_one_entry:
  assumes c: "consistent s" and k: "k \<in> Mapping.keys (cache s)"
  shows "one_entry s k"
proof -
  from k obtain e where lk: "Mapping.lookup (cache s) k = Some e" by (auto dest: in_keysD)
  from consistent_lookup[OF c lk] have e: "e \<in> set (list s)" "item_key s e = Some k" by auto
  have d: "distinct (list s)" by (rule consistent_distinct[OF c])
  have cnt: "count_list (list s) e = 1"
    using d e(1) by (rule distinct_count_one)
  have "{x. item_key s x = Some k} \<inter> set (list s) = {e}"
  proof (rule set_eqI, rule iffI)
    fix x assume "x \<in> {x. item_key s x = Some k} \<inter> set (list s)"
    then have x: "item_key s x = Some k" "x \<in> set (list s)" by auto
    from consistent_elem[OF c x(2)] x(1) have "Mapping.lookup (cache s) k = Some x" by auto
    with lk show "x \<in> {e}" by simp
  next
    fix x assume "x \<in> {e}"
    with e show "x \<in> {x. item_key s x = Some k} \<inter> set (list s)" by simp
  qed
  then have "length (filter (\<lambda>x. item_key s x = Some k) (list s)) = 1"
    using d by (simp add: distinct_length_filter)
  with lk cnt e(2) show ?thesis by (simp add: one_entry_def)
qed

lemma consistent_invariant:
  assumes "consistent s" "int (length (list s)) \<le> capacity s"
  shows "invariant s"
  using assms consistent_size[OF assms(1)] consistent_one_entry[OF assms(1)]
  by (simp add: invariant_def)

lemma apply_op_consistent:
  assumes c: "consistent s" and pos: "0 < capacity s"
    and b: "int (length (list s)) \<le> capacity s"
  shows "\<exists>s'. apply_op s x = Inr s' \<and> consistent s' \<and> capacity s' = capacity s \<and>
           int (length (list s')) \<le> capacity s'"
proof (cases x)
  case (OpGet k)
  from Get_consistent[OF c, of k] obtain r s'
    where "Get s k = Inr (r, s')" "consistent s'" "capacity s' = capacity s"
      "length (list s') = length (list s)" by auto
  with OpGet b show ?thesis by (simp add: apply_op_def)
next
  case (OpPut k v)
  from Put_consistent[OF c, of k v] pos b obtain s'
    where "Put s k v = Inr s'" "consistent s'" "capacity s' = capacity s"
      "int (length (list s')) \<le> capacity s" by auto
  with OpPut show ?thesis by (simp add: apply_op_def)
qed

lemma run_consistent:
  assumes "consistent s" "0 < capacity s" "int (length (list s)) \<le> capacity s"
  shows "\<exists>s'. run s ops = Inr s' \<and> consistent s' \<and> capacity s' = capacity s \<and>
           int (length (list s')) \<le> capacity s'"
  using assms
proof (induction ops arbitrary: s)
  case Nil
  then show ?case by simp
next
  case (Cons x xs)
  from apply_op_consistent[OF Cons.prems, of x] obtain s1
    where s1: "apply_op s x = Inr s1" "consistent s1" "capacity s1 = capacity s"
      "int (length (list s1)) \<le> capacity s1" by auto
  from Cons.prems(2) s1(3) have "0 < capacity s1" by simp
  from Cons.IH[OF s1(2) this s1(4)] s1(1,3) show ?case by auto
qed

lemma MoveToFront_eq: "e \<in> set l \<Longrightarrow> MoveToFront e l = e # remove1 e l"
  by (cases l) (auto simp: MoveToFront_def)

lemma sorted_wrt_remove1: "sorted_wrt P l \<Longrightarrow> sorted_wrt P (remove1 x l)"
proof (induction l)
  case Nil
  then show ?case by simp
next
  case (Cons a l)
  then show ?case by (auto dest: notin_set_remove1)
qed

lemma sorted_wrt_butlast: "sorted_wrt P l \<Longrightarrow> sorted_wrt P (butlast l)"
proof (cases "l = []")
  case True
  then show ?thesis by simp
next
  case False
  assume "sorted_wrt P l"
  with False have "sorted_wrt P (butlast l @ [last l])" by simp
  then show ?thesis unfolding sorted_wrt_append by simp
qed

lemma last_touch_le: "last_touch ts k \<le> length ts"
  by (simp add: last_touch_def)

lemma last_touch_snoc_Some:
  "last_touch (ts @ [Some k]) k' = (if k' = k then Suc (length ts) else last_touch ts k')"
  by (auto simp: last_touch_def Suc_diff_le length_takeWhile_le
      intro: le_trans[OF length_takeWhile_le])

lemma last_touch_snoc_None: "last_touch (ts @ [None]) k' = last_touch ts k'"
  by (simp add: last_touch_def)

lemma run_snoc:
  "run s (ops @ [x]) = (case run s ops of Inl e \<Rightarrow> Inl e | Inr s' \<Rightarrow> apply_op s' x)"
  by (induction ops arbitrary: s) (auto split: sum.splits)

lemma touches_snoc:
  "touches s (ops @ [x]) =
     touches s ops @ (case run s ops of Inl _ \<Rightarrow> [] | Inr s' \<Rightarrow> [touch_of s' x])"
  by (induction ops arbitrary: s) (auto split: sum.splits)

lemma elem_key_item_key: "item_key s e = Some k \<Longrightarrow> elem_key s e = k"
  by (auto simp: elem_key_def item_key_def)

lemma consistent_elem_key_inj:
  assumes c: "consistent s" and "e \<in> set (list s)" "e' \<in> set (list s)"
    and "elem_key s e = elem_key s e'"
  shows "e = e'"
proof -
  from consistent_elem[OF c assms(2)] obtain k
    where k: "item_key s e = Some k" "Mapping.lookup (cache s) k = Some e" by auto
  from consistent_elem[OF c assms(3)] obtain k'
    where k': "item_key s e' = Some k'" "Mapping.lookup (cache s) k' = Some e'" by auto
  from k(1) k'(1) assms(4) have "k = k'" by (simp add: elem_key_item_key)
  with k(2) k'(2) show ?thesis by simp
qed

text \<open>Touching the key of an element and moving the element to the front.\<close>

lemma recency_touch_front:
  assumes c: "consistent s" and r: "recency_sorted ts s"
    and lk: "Mapping.lookup (cache s) k = Some e"
    and keys: "\<And>e'. e' \<in> set (list s) \<Longrightarrow> elem_key s' e' = elem_key s e'"
    and l': "list s' = MoveToFront e (list s)"
  shows "recency_sorted (ts @ [Some k]) s'"
proof -
  from consistent_lookup[OF c lk] have e: "e \<in> set (list s)" "item_key s e = Some k" by auto
  have ke: "elem_key s e = k" by (rule elem_key_item_key[OF e(2)])
  have other: "elem_key s e' \<noteq> k" if "e' \<in> set (list s)" "e' \<noteq> e" for e'
    using consistent_elem_key_inj[OF c that(1) e(1)] ke that(2) by auto
  let ?P = "\<lambda>a b. last_touch ts (elem_key s b) < last_touch ts (elem_key s a)"
  let ?Q = "\<lambda>a b. last_touch (ts @ [Some k]) (elem_key s' b)
                    < last_touch (ts @ [Some k]) (elem_key s' a)"
  have d: "distinct (list s)" by (rule consistent_distinct[OF c])
  have rest: "set (remove1 e (list s)) = set (list s) - {e}" using d by simp
  have "sorted_wrt ?P (remove1 e (list s))"
    using r unfolding recency_sorted_def by (rule sorted_wrt_remove1)
  then have "sorted_wrt ?Q (remove1 e (list s))"
  proof (rule sorted_wrt_mono_rel[rotated])
    fix a b assume "a \<in> set (remove1 e (list s))" "b \<in> set (remove1 e (list s))" "?P a b"
    with rest keys other show "?Q a b" by (simp add: last_touch_snoc_Some)
  qed
  moreover have "?Q e b" if "b \<in> set (remove1 e (list s))" for b
  proof -
    from that rest have b: "b \<in> set (list s)" "b \<noteq> e" by auto
    have "last_touch (ts @ [Some k]) (elem_key s' b) = last_touch ts (elem_key s b)"
      using keys[OF b(1)] other[OF b] by (simp add: last_touch_snoc_Some)
    moreover have "last_touch (ts @ [Some k]) (elem_key s' e) = Suc (length ts)"
      using keys[OF e(1)] ke by (simp add: last_touch_snoc_Some)
    ultimately show ?thesis using last_touch_le[of ts "elem_key s b"] by simp
  qed
  ultimately show ?thesis
    unfolding recency_sorted_def l' MoveToFront_eq[OF e(1)] by simp
qed

lemma evict_list:
  assumes c: "consistent s"
  shows "\<exists>s1. evict s = Inr s1 \<and> items s1 = items s \<and> fresh s1 = fresh s \<and>
           (list s1 = list s \<or> list s1 = butlast (list s))"
proof -
  consider (room) "int (Mapping.size (cache s)) < capacity s"
    | (empty) "int (Mapping.size (cache s)) \<ge> capacity s" "list s = []"
    | (full) "int (Mapping.size (cache s)) \<ge> capacity s" "list s \<noteq> []"
    by linarith
  then show ?thesis
  proof cases
    case room
    then show ?thesis by (simp add: evict_skip)
  next
    case empty
    then show ?thesis by (simp add: evict_empty)
  next
    case full
    from evict_full[OF c full] show ?thesis by auto
  qed
qed

lemma recency_add_new:
  assumes c: "consistent s" and r: "recency_sorted ts s"
    and miss: "Mapping.lookup (cache s) k = None" and ev: "evict s = Inr s1"
  shows "recency_sorted (ts @ [Some k]) (add_new k v s1)"
proof -
  from evict_consistent[OF c, of k] ev miss
  have c1: "consistent s1" and miss1: "Mapping.lookup (cache s1) k = None" by auto
  from evict_list[OF c] ev
  have it: "items s1 = items s" and l: "list s1 = list s \<or> list s1 = butlast (list s)" by auto
  let ?s' = "add_new k v s1"
  let ?P = "\<lambda>a b. last_touch ts (elem_key s b) < last_touch ts (elem_key s a)"
  let ?Q = "\<lambda>a b. last_touch (ts @ [Some k]) (elem_key ?s' b)
                    < last_touch (ts @ [Some k]) (elem_key ?s' a)"
  have ek1: "elem_key s1 = elem_key s" using it by (simp add: elem_key_def fun_eq_iff)
  have new: "elem_key ?s' (fresh s1) = k" by (simp add: add_new_eq elem_key_def)
  have old: "elem_key ?s' e = elem_key s e \<and> elem_key s e \<noteq> k" if "e \<in> set (list s1)" for e
  proof -
    from consistent_fresh[OF c1 that] have "e \<noteq> fresh s1" by simp
    then have "elem_key ?s' e = elem_key s1 e" by (simp add: add_new_eq elem_key_def)
    moreover from consistent_elem[OF c1 that] miss1 have "elem_key s1 e \<noteq> k"
      by (auto simp: elem_key_item_key)
    ultimately show ?thesis using ek1 by simp
  qed
  have "sorted_wrt ?P (list s1)"
    using l r sorted_wrt_butlast[of ?P "list s"] unfolding recency_sorted_def by auto
  then have "sorted_wrt ?Q (list s1)"
  proof (rule sorted_wrt_mono_rel[rotated])
    fix a b assume "a \<in> set (list s1)" "b \<in> set (list s1)" "?P a b"
    with old show "?Q a b" by (simp add: last_touch_snoc_Some)
  qed
  moreover have "?Q (fresh s1) b" if "b \<in> set (list s1)" for b
    using old[OF that] new last_touch_le[of ts "elem_key s b"]
    by (simp add: last_touch_snoc_Some)
  moreover have "list ?s' = fresh s1 # list s1" by (simp add: add_new_eq)
  ultimately show ?thesis unfolding recency_sorted_def by simp
qed

lemma apply_op_recency:
  assumes c: "consistent s" and r: "recency_sorted ts s" and a: "apply_op s x = Inr s'"
  shows "recency_sorted (ts @ [touch_of s x]) s'"
proof (cases x)
  case (OpGet k)
  show ?thesis
  proof (cases "Mapping.lookup (cache s) k")
    case None
    with a OpGet have "s' = s" "touch_of s x = None"
      by (simp_all add: apply_op_def touch_of_def Get_miss)
    with r show ?thesis by (simp add: recency_sorted_def last_touch_snoc_None)
  next
    case (Some e)
    from Get_hit[OF c Some] obtain it :: CacheItem
      where g: "Get s k = Inr ((value it, True), s\<lparr>list := MoveToFront e (list s)\<rparr>)"
      by blast
    with a OpGet have s': "s' = s\<lparr>list := MoveToFront e (list s)\<rparr>" and t: "touch_of s x = Some k"
      by (simp_all add: apply_op_def touch_of_def)
    have "recency_sorted (ts @ [Some k]) s'"
      by (rule recency_touch_front[OF c r Some]) (simp_all add: s' elem_key_def)
    with t show ?thesis by simp
  qed
next
  case (OpPut k v)
  then have t: "touch_of s x = Some k" by (simp add: touch_of_def)
  show ?thesis
  proof (cases "Mapping.lookup (cache s) k")
    case None
    from evict_consistent[OF c, of k] obtain s1 where ev: "evict s = Inr s1" by auto
    from Put_miss[OF None ev, of v] a OpPut have "s' = add_new k v s1"
      by (simp add: apply_op_def)
    with recency_add_new[OF c r None ev, of v] t show ?thesis by simp
  next
    case (Some e)
    from Put_hit[OF c Some, of v] obtain it
      where it: "items s e = Some it"
        and p: "Put s k v = Inr (s\<lparr>list := MoveToFront e (list s),
                                   items := (items s)(e \<mapsto> it\<lparr>value := v\<rparr>)\<rparr>)" by auto
    with a OpPut have s': "s' = s\<lparr>list := MoveToFront e (list s),
                                   items := (items s)(e \<mapsto> it\<lparr>value := v\<rparr>)\<rparr>"
      by (simp add: apply_op_def)
    have "recency_sorted (ts @ [Some k]) s'"
      by (rule recency_touch_front[OF c r Some]) (use it in \<open>simp_all add: s' elem_key_def\<close>)
    with t show ?thesis by simp
  qed
qed

lemma apply_op_total:
  assumes c: "consistent s"
  shows "\<exists>s'. apply_op s x = Inr s' \<and> consistent s' \<and> capacity s' = capacity s"
proof (cases x)
  case (OpGet k)
  from Get_consistent[OF c, of k] OpGet show ?thesis by (auto simp: apply_op_def)
next
  case (OpPut k v)
  from Put_consistent[OF c, of k v] OpPut show ?thesis by (auto simp: apply_op_def)
qed

lemma run_recency:
  "\<exists>s. run (NewLRUCache cap) ops = Inr s \<and> consistent s \<and> capacity s = cap \<and>
        recency_sorted (touches (NewLRUCache cap) ops) s"
proof (induction ops rule: rev_induct)
  case Nil
  have "recency_sorted [] (NewLRUCache cap)" "capacity (NewLRUCache cap) = cap"
    by (simp_all add: recency_sorted_def NewLRUCache_def)
  with consistent_New[of cap] show ?case by simp
next
  case (snoc x xs)
  then obtain s where s: "run (NewLRUCache cap) xs = Inr s" "consistent s" "capacity s = cap"
    "recency_sorted (touches (NewLRUCache cap) xs) s" by auto
  from apply_op_total[OF s(2), of x] obtain s'
    where s': "apply_op s x = Inr s'" "consistent s'" "capacity s' = capacity s" by auto
  from apply_op_recency[OF s(2,4) s'(1)] s s'
  show ?case by (simp add: run_snoc touches_snoc)
qed

lemma peek_add_new_same: "peek (add_new k v s1) k = Some v"
  by (simp add: peek_def add_new_eq)

lemma MoveToFront_head: "MoveToFront e (e # l) = e # l"
  by (simp add: MoveToFront_def)

lemma Get_front:
  assumes "Mapping.lookup (cache s) k = Some e" "items s e = Some it" "list s = e # l"
  shows "Get s k = Inr ((value it, True), s)"
proof -
  have "MoveToFront e (list s) = list s" using assms(3) by (simp add: MoveToFront_head)
  with assms(1,2) show ?thesis by (simp add: Get_def)
qed

lemma length_Cons_remove1: "e \<in> set l \<Longrightarrow> length (e # remove1 e l) = length l"
  using length_pos_if_in_set[of e l] by (simp add: length_remove1)

lemma Put_hit_shape:
  assumes c: "consistent s" and lk: "Mapping.lookup (cache s) k = Some e"
  shows "\<exists>it s'. items s e = Some it \<and> key it = k \<and> Put s k v = Inr s' \<and>
           cache s' = cache s \<and> capacity s' = capacity s \<and> fresh s' = fresh s \<and>
           list s' = e # remove1 e (list s) \<and>
           items s' = (items s)(e \<mapsto> it\<lparr>value := v\<rparr>) \<and>
           Get s' k = Inr ((v, True), s')"
proof -
  from Put_hit[OF c lk, of v] obtain it :: CacheItem
    where it: "items s e = Some it" "key it = k"
      and p: "Put s k v = Inr (s\<lparr>list := MoveToFront e (list s),
                                 items := (items s)(e \<mapsto> it\<lparr>value := v\<rparr>)\<rparr>)"
        (is "_ = Inr ?s'") by blast
  from consistent_lookup[OF c lk] have e: "e \<in> set (list s)" by simp
  have l: "list ?s' = e # remove1 e (list s)" by (simp add: MoveToFront_eq[OF e])
  have "Get ?s' k = Inr ((value (it\<lparr>value := v\<rparr>), True), ?s')"
    by (rule Get_front[OF _ _ l]) (simp_all add: lk)
  with it p l show ?thesis by (intro exI[of _ it] exI[of _ ?s']) simp
qed

lemma Put_miss_shape:
  assumes c: "consistent s" and miss: "Mapping.lookup (cache s) k = None"
  shows "\<exists>s1. evict s = Inr s1 \<and> Put s k v = Inr (add_new k v s1) \<and>
           Get (add_new k v s1) k = Inr ((v, True), add_new k v s1)"
proof -
  from evict_consistent[OF c, of k] obtain s1 where ev: "evict s = Inr s1" by auto
  have "Get (add_new k v s1) k = Inr ((value \<lparr>key = k, value = v\<rparr>, True), add_new k v s1)"
    by (rule Get_front[where e = "fresh s1" and l = "list s1"]) (simp_all add: add_new_eq)
  with ev Put_miss[OF miss ev, of v] show ?thesis by simp
qed

lemma Put_then_Get:
  assumes c: "consistent s"
  shows "\<exists>s'. Put s k v = Inr s' \<and> Get s' k = Inr ((v, True), s')"
proof (cases "Mapping.lookup (cache s) k")
  case None
  from Put_miss_shape[OF c None, of v] show ?thesis by auto
next
  case (Some e)
  from Put_hit_shape[OF c Some, of v] show ?thesis by blast
qed

text \<open>The example state is the one its operations lead to, and it is consistent.\<close>

lemma run_example_ab: "run (NewLRUCache 2) example_ops = Inr example_ab"
  by (simp add: apply_op_def Put_def Get_def evict_def add_new_def PushFront_def NewLRUCache_def
      Back_def Remove_def MoveToFront_def Mapping.size_def example_ab_def example_ops_def
      Let_def lookup_update')

lemma consistent_example_ab: "consistent example_ab"
  by (simp add: consistent_def item_key_def example_ab_def)

lemma example_ab_facts:
  "Mapping.lookup (cache example_ab) ''a'' = Some 0"
  "Mapping.lookup (cache example_ab) ''c'' = None"
  "''c'' \<notin> Mapping.keys (cache example_ab)"
  "Mapping.size (cache example_ab) = 2"
  "capacity example_ab = 2"
  by (simp_all add: example_ab_def Mapping.size_def)

section \<open>The claims about the cache\<close>

text \<open>
  Claim C1. For a cache created with a positive capacity, every sequence of \<open>Get\<close> and
  \<open>Put\<close> operations runs without a panic, and after each operation (after every prefix
  of the sequence) the map has as many keys as the order list has entries, that number
  is at most the capacity, and every key of the map denotes exactly one entry of the
  order list.
\<close>

theorem cache_invariant:
  assumes "0 < cap"
  shows "\<forall>n \<le> length ops.
           \<exists>s. run (NewLRUCache cap) (take n ops) = Inr s \<and> capacity s = cap \<and> invariant s"
proof (intro allI impI)
  fix n
  have "consistent (NewLRUCache cap)" by (rule consistent_New)
  moreover have "0 < capacity (NewLRUCache cap)" using assms by (simp add: NewLRUCache_def)
  moreover have "int (length (list (NewLRUCache cap))) \<le> capacity (NewLRUCache cap)"
    using assms by (simp add: NewLRUCache_def)
  ultimately obtain s where
    "run (NewLRUCache cap) (take n ops) = Inr s" "consistent s"
    "capacity s = capacity (NewLRUCache cap)" "int (length (list s)) \<le> capacity s"
    using run_consistent by blast
  then show "\<exists>s. run (NewLRUCache cap) (take n ops) = Inr s \<and> capacity s = cap \<and> invariant s"
    by (auto simp: NewLRUCache_def intro: consistent_invariant)
qed

theorem cache_invariant_witness:
  "0 < (2::int) \<and>
   (\<exists>s. run (NewLRUCache 2) [OpPut ''a'' [1], OpPut ''b'' [2], OpGet ''a'', OpPut ''c'' [3]] = Inr s \<and>
        capacity s = 2 \<and> invariant s)"
  using cache_invariant[of 2 "[OpPut ''a'' [1], OpPut ''b'' [2], OpGet ''a'', OpPut ''c'' [3]]",
      THEN spec, of 4]
  by simp

text \<open>
  Claim C2. In a cache reached from \<open>NewLRUCache cap\<close> with a positive capacity that
  is full, \<open>Put\<close> of a key that is not present evicts exactly one key, the victim: the
  keys afterwards are the new key and the old keys without the victim, every other key
  keeps its value, and the victim is the least recently touched key, that is, every
  other key of the cache was last touched after the victim was last touched, where a
  \<open>Put\<close> and a \<open>Get\<close> that hits are touches. With capacity 2,
  \<open>Put(a,1); Put(b,2); Put(c,3)\<close> is followed by \<open>Get(a)\<close> = miss, \<open>Get(b)\<close> = hit(2),
  \<open>Get(c)\<close> = hit(3), and \<open>Put(a,1); Put(b,2); Get(a); Put(c,3)\<close> is followed by
  \<open>Get(b)\<close> = miss, \<open>Get(a)\<close> = hit(1) (the first result of the second run is that of
  the \<open>Get(a)\<close> in its middle).
\<close>

theorem lru_eviction:
  "(0 < cap \<and> run (NewLRUCache cap) ops = Inr s \<and> Mapping.lookup (cache s) k = None \<and>
    capacity s \<le> int (Mapping.size (cache s)) \<longrightarrow>
      (\<exists>victim s'. Put s k v = Inr s' \<and> victim \<in> Mapping.keys (cache s) \<and>
         Mapping.keys (cache s') = insert k (Mapping.keys (cache s) - {victim}) \<and>
         peek s' k = Some v \<and>
         (\<forall>k' \<in> Mapping.keys (cache s). k' \<noteq> victim \<longrightarrow>
            last_touch (touches (NewLRUCache cap) ops) victim
              < last_touch (touches (NewLRUCache cap) ops) k' \<and>
            peek s' k' = peek s k'))) \<and>
   observe (NewLRUCache 2)
     [OpPut ''a'' [1], OpPut ''b'' [2], OpPut ''c'' [3], OpGet ''a'', OpGet ''b'', OpGet ''c'']
     = Inr [([], False), ([2], True), ([3], True)] \<and>
   observe (NewLRUCache 2)
     [OpPut ''a'' [1], OpPut ''b'' [2], OpGet ''a'', OpPut ''c'' [3], OpGet ''b'', OpGet ''a'']
     = Inr [([1], True), ([], False), ([1], True)]"
proof (intro conjI impI)
  assume h: "0 < cap \<and> run (NewLRUCache cap) ops = Inr s \<and>
    Mapping.lookup (cache s) k = None \<and> capacity s \<le> int (Mapping.size (cache s))"
  let ?T = "touches (NewLRUCache cap) ops"
  from h run_recency[of cap ops]
  have c: "consistent s" and cap: "capacity s = cap" and r: "recency_sorted ?T s" by auto
  from h have miss: "Mapping.lookup (cache s) k = None"
    and full: "capacity s \<le> int (Mapping.size (cache s))" and pos: "0 < cap" by auto
  have ne: "list s \<noteq> []"
    using full pos cap consistent_size[OF c] by auto
  from evict_full[OF c full ne] obtain it :: CacheItem
    where it: "items s (last (list s)) = Some it"
      and lv: "Mapping.lookup (cache s) (key it) = Some (last (list s))"
      and ev: "evict s = Inr (s\<lparr>cache := Mapping.delete (key it) (cache s),
                                 list := butlast (list s)\<rparr>)" (is "_ = Inr ?s1")
    by blast
  let ?s' = "add_new k v ?s1"
  have put: "Put s k v = Inr ?s'" by (rule Put_miss[OF miss ev])
  have vin: "key it \<in> Mapping.keys (cache s)" using lv by (simp add: in_keys_iff)
  have keys': "Mapping.keys (cache ?s') = insert k (Mapping.keys (cache s) - {key it})"
    by (simp add: add_new_eq)
  have lastkey: "elem_key s (last (list s)) = key it" using it by (simp add: elem_key_def)
  have others: "last_touch ?T (key it) < last_touch ?T k' \<and> peek ?s' k' = peek s k'"
    if k': "k' \<in> Mapping.keys (cache s)" "k' \<noteq> key it" for k'
  proof -
    from k'(1) obtain e where lk: "Mapping.lookup (cache s) k' = Some e"
      by (auto dest: in_keysD)
    from consistent_lookup[OF c lk] have e: "e \<in> set (list s)" "item_key s e = Some k'" by auto
    have ek: "elem_key s e = k'" by (rule elem_key_item_key[OF e(2)])
    with k'(2) lastkey have "e \<noteq> last (list s)" by auto
    moreover from e(1) ne have "e \<in> set (butlast (list s) @ [last (list s)])" by simp
    ultimately have eb: "e \<in> set (butlast (list s))" by simp
    from r ne have "sorted_wrt (\<lambda>a b. last_touch ?T (elem_key s b) < last_touch ?T (elem_key s a))
        (butlast (list s) @ [last (list s)])"
      by (simp add: recency_sorted_def)
    with eb have lt: "last_touch ?T (elem_key s (last (list s))) < last_touch ?T (elem_key s e)"
      unfolding sorted_wrt_append by simp
    have "k' \<noteq> k" using lk miss by auto
    moreover have "e \<noteq> fresh s" using consistent_fresh[OF c e(1)] by simp
    ultimately have "peek ?s' k' = peek s k'"
      using lk k'(2) by (simp add: peek_def add_new_eq lookup_update')
    with lt lastkey ek show ?thesis by simp
  qed
  show "\<exists>victim s'. Put s k v = Inr s' \<and> victim \<in> Mapping.keys (cache s) \<and>
         Mapping.keys (cache s') = insert k (Mapping.keys (cache s) - {victim}) \<and>
         peek s' k = Some v \<and>
         (\<forall>k' \<in> Mapping.keys (cache s). k' \<noteq> victim \<longrightarrow>
            last_touch ?T victim < last_touch ?T k' \<and> peek s' k' = peek s k')"
    using put vin keys' others peek_add_new_same[of k v ?s1]
    by (intro exI[of _ "key it"] exI[of _ ?s']) blast
next
  show "observe (NewLRUCache 2)
     [OpPut ''a'' [1], OpPut ''b'' [2], OpPut ''c'' [3], OpGet ''a'', OpGet ''b'', OpGet ''c'']
     = Inr [([], False), ([2], True), ([3], True)]" by code_simp
next
  show "observe (NewLRUCache 2)
     [OpPut ''a'' [1], OpPut ''b'' [2], OpGet ''a'', OpPut ''c'' [3], OpGet ''b'', OpGet ''a'']
     = Inr [([1], True), ([], False), ([1], True)]" by code_simp
qed

theorem lru_eviction_witness:
  "0 < (2::int) \<and> run (NewLRUCache 2) example_ops = Inr example_ab \<and>
   Mapping.lookup (cache example_ab) ''c'' = None \<and>
   capacity example_ab \<le> int (Mapping.size (cache example_ab)) \<and>
   (\<exists>victim s'. Put example_ab ''c'' [3] = Inr s' \<and> victim \<in> Mapping.keys (cache example_ab) \<and>
      Mapping.keys (cache s') = insert ''c'' (Mapping.keys (cache example_ab) - {victim}) \<and>
      peek s' ''c'' = Some [3] \<and>
      (\<forall>k' \<in> Mapping.keys (cache example_ab). k' \<noteq> victim \<longrightarrow>
         last_touch (touches (NewLRUCache 2) example_ops) victim
           < last_touch (touches (NewLRUCache 2) example_ops) k' \<and>
         peek s' k' = peek example_ab k'))"
proof -
  have h: "0 < (2::int) \<and> run (NewLRUCache 2) example_ops = Inr example_ab \<and>
      Mapping.lookup (cache example_ab) ''c'' = None \<and>
      capacity example_ab \<le> int (Mapping.size (cache example_ab))"
    by (simp add: run_example_ab example_ab_facts)
  with lru_eviction[of 2 example_ops example_ab "''c''" "[3]"] show ?thesis by blast
qed

text \<open>
  Claim C3. In a consistent cache, \<open>Put\<close> of a key that is present leaves the map as it
  is (the key keeps its element), writes the new value into the item of that element,
  moves the element to the front of the list and changes neither the number of keys nor
  the length of the list; a \<open>Get\<close> of the key then returns the new value. In
  particular, after \<open>Put(a,v1); Put(a,v2)\<close> the size is that after the first \<open>Put\<close>
  and \<open>Get(a)\<close> returns \<open>(v2, true)\<close>.
\<close>

theorem put_existing_in_place:
  "(consistent s \<and> Mapping.lookup (cache s) k = Some e \<longrightarrow>
      (\<exists>it s'. items s e = Some it \<and> key it = k \<and> Put s k v = Inr s' \<and>
         cache s' = cache s \<and> Mapping.size (cache s') = Mapping.size (cache s) \<and>
         length (list s') = length (list s) \<and> list s' = e # remove1 e (list s) \<and>
         items s' = (items s)(e \<mapsto> it\<lparr>value := v\<rparr>) \<and>
         Get s' k = Inr ((v, True), s'))) \<and>
   (consistent s0 \<longrightarrow>
      (\<exists>s1 s2. Put s0 a v1 = Inr s1 \<and> Put s1 a v2 = Inr s2 \<and>
         Mapping.size (cache s2) = Mapping.size (cache s1) \<and>
         length (list s2) = length (list s1) \<and> Get s2 a = Inr ((v2, True), s2)))"
proof (intro conjI impI)
  assume h: "consistent s \<and> Mapping.lookup (cache s) k = Some e"
  then have c: "consistent s" and lk: "Mapping.lookup (cache s) k = Some e" by auto
  from consistent_lookup[OF c lk] have e: "e \<in> set (list s)" by simp
  then have "length (e # remove1 e (list s)) = length (list s)"
    by (rule length_Cons_remove1)
  with Put_hit_shape[OF c lk, of v]
  show "\<exists>it s'. items s e = Some it \<and> key it = k \<and> Put s k v = Inr s' \<and>
         cache s' = cache s \<and> Mapping.size (cache s') = Mapping.size (cache s) \<and>
         length (list s') = length (list s) \<and> list s' = e # remove1 e (list s) \<and>
         items s' = (items s)(e \<mapsto> it\<lparr>value := v\<rparr>) \<and>
         Get s' k = Inr ((v, True), s')"
    by (metis (no_types, lifting))
next
  assume c0: "consistent s0"
  from Put_consistent[OF c0, of a v1] obtain s1
    where s1: "Put s0 a v1 = Inr s1" "consistent s1" by auto
  from Put_then_Get[OF c0, of a v1] s1(1) have "Get s1 a = Inr ((v1, True), s1)" by auto
  then obtain e where lk: "Mapping.lookup (cache s1) a = Some e"
    by (auto simp: Get_def split: option.splits)
  from consistent_lookup[OF s1(2) lk] have e: "e \<in> set (list s1)" by simp
  then have len: "length (e # remove1 e (list s1)) = length (list s1)"
    by (rule length_Cons_remove1)
  from Put_hit_shape[OF s1(2) lk, of v2] obtain s2
    where "Put s1 a v2 = Inr s2" "cache s2 = cache s1" "list s2 = e # remove1 e (list s1)"
      "Get s2 a = Inr ((v2, True), s2)" by blast
  with s1(1) len
  show "\<exists>s1 s2. Put s0 a v1 = Inr s1 \<and> Put s1 a v2 = Inr s2 \<and>
         Mapping.size (cache s2) = Mapping.size (cache s1) \<and>
         length (list s2) = length (list s1) \<and> Get s2 a = Inr ((v2, True), s2)"
    by auto
qed

theorem put_existing_in_place_witness:
  "consistent example_ab \<and> Mapping.lookup (cache example_ab) ''a'' = Some 0 \<and>
   (\<exists>s'. Put example_ab ''a'' [9] = Inr s' \<and> cache s' = cache example_ab \<and>
      Mapping.size (cache s') = 2 \<and> length (list s') = 2 \<and>
      Get s' ''a'' = Inr (([9], True), s')) \<and>
   consistent (NewLRUCache 2) \<and>
   (\<exists>s1 s2. Put (NewLRUCache 2) ''a'' [1] = Inr s1 \<and> Put s1 ''a'' [2] = Inr s2 \<and>
      Mapping.size (cache s2) = Mapping.size (cache s1) \<and>
      length (list s2) = length (list s1) \<and> Get s2 ''a'' = Inr (([2], True), s2))"
proof -
  have h: "consistent example_ab \<and> Mapping.lookup (cache example_ab) ''a'' = Some 0"
    by (simp add: consistent_example_ab example_ab_facts)
  have l: "length (list example_ab) = 2" by (simp add: example_ab_def)
  from put_existing_in_place[of example_ab "''a''" 0 "[9]" "NewLRUCache 2" "''a''" "[1]" "[2]"]
    h consistent_New[of 2] l example_ab_facts(4)
  show ?thesis by (metis (no_types, lifting))
qed

text \<open>
  Claim C4. In every cache state, \<open>Get\<close> of a key that is not in the map returns
  \<open>found = false\<close> (with the nil value) and the state it leaves is the state it found:
  the same keys, the same values, the same order.
\<close>

theorem get_miss_no_effect:
  "k \<notin> Mapping.keys (cache s) \<Longrightarrow> Get s k = Inr (([], False), s)"
  by (simp add: in_keys_iff Get_miss)

theorem get_miss_no_effect_witness:
  "''c'' \<notin> Mapping.keys (cache example_ab) \<and> Get example_ab ''c'' = Inr (([], False), example_ab)"
  using get_miss_no_effect[of "''c''" example_ab] by (simp add: example_ab_facts)

text \<open>
  Claim C5. In a consistent cache, for every key and every byte sequence \<open>v\<close>, \<open>Put\<close>
  succeeds and a \<open>Get\<close> of the key right after it returns \<open>(v, true)\<close>, the bytes that
  were stored.
\<close>

theorem put_get_roundtrip:
  "consistent s \<Longrightarrow> \<exists>s'. Put s k v = Inr s' \<and> Get s' k = Inr ((v, True), s')"
  by (rule Put_then_Get)

theorem put_get_roundtrip_witness:
  "consistent example_ab \<and>
   (\<exists>s'. Put example_ab ''c'' [0, 255, 7] = Inr s' \<and> Get s' ''c'' = Inr (([0, 255, 7], True), s'))"
  using put_get_roundtrip[of example_ab "''c''" "[0, 255, 7]"] consistent_example_ab by simp

section \<open>Properties of the handlers\<close>

lemmas status_defs = StatusBadRequest_def StatusInternalServerError_def StatusBadGateway_def

lemmas effect_views = outbound_def error_replies_def body_writes_def is_reply_def is_header_call_def

lemma handleRequest_hit:
  assumes c: "consistent c" and lk: "Mapping.lookup (cache c) (URL_String r) = Some e"
  shows "\<exists>it. items c e = Some it \<and> key it = URL_String r \<and>
           handleRequest client c r =
             Inr ([Println [''Cache hit:'', URL_String r], Write (value it)],
                  c\<lparr>list := MoveToFront e (list c)\<rparr>)"
proof -
  from Get_hit[OF c lk] obtain it :: CacheItem
    where "items c e = Some it" "key it = URL_String r"
      "Get c (URL_String r) = Inr ((value it, True), c\<lparr>list := MoveToFront e (list c)\<rparr>)"
    by blast
  then show ?thesis by (simp add: handleRequest_def)
qed

lemma handleRequest_miss:
  assumes miss: "Mapping.lookup (cache c) (URL_String r) = None"
  shows "handleRequest client c r =
     (case client (URL_String r) of
        None \<Rightarrow>
          Inr ([OutboundGet (URL_String r), HttpError ''Failed to fetch from target'' 502], c)
      | Some resp \<Rightarrow>
          if fails (Body resp)
          then Inr ([OutboundGet (URL_String r), HttpError ''Failed to read response'' 500,
                     BodyClose], c)
          else (case Put c (URL_String r) (content (Body resp)) of
                  Inl err \<Rightarrow> Inl err
                | Inr c2 \<Rightarrow>
                    Inr ([OutboundGet (URL_String r), Write (content (Body resp)), BodyClose],
                         c2)))"
  using miss
  by (simp add: handleRequest_def Get_miss ReadAll_def status_defs Let_def split: option.splits)

lemma Put_then_handle:
  assumes c0: "consistent c0" and p: "Put c0 (URL_String r) v = Inr c"
  shows "handleRequest client c r = Inr ([Println [''Cache hit:'', URL_String r], Write v], c)"
proof -
  from Put_then_Get[OF c0, of "URL_String r" v] p
  have "Get c (URL_String r) = Inr ((v, True), c)" by simp
  then show ?thesis by (simp add: handleRequest_def)
qed

subsection \<open>The forwarding handler and the decoding of the specification\<close>

lemma TrimPrefix_slash: "TrimPrefix s ''/'' = spec_strip_separator s"
  by (cases s) (auto simp: TrimPrefix_def HasPrefix_def spec_strip_separator_def)

lemma HasPrefix_take: "HasPrefix t p \<longleftrightarrow> take (length p) t = p"
proof
  assume "take (length p) t = p"
  then have "length (take (length p) t) = length p" by simp
  then have "length p \<le> length t" by simp
  with \<open>take (length p) t = p\<close> show "HasPrefix t p" by (simp add: HasPrefix_def)
qed (simp add: HasPrefix_def)

lemma HasPrefix_schemes:
  "HasPrefix t ''http://'' \<longleftrightarrow> take 7 t = ''http://''"
  "HasPrefix t ''https://'' \<longleftrightarrow> take 8 t = ''https://''"
  by (simp_all add: HasPrefix_take eval_nat_numeral)

lemma hex_table:
  "\<forall>c::char. case hex_digit c of
                None \<Rightarrow> \<not> ishex c
              | Some x \<Rightarrow> ishex c \<and> unhex c = of_nat x \<and> x \<in> set [0..<16]"
  by code_simp

lemma nat_or:
  assumes "y < 16"
  shows "push_bit 4 (x::nat) OR y = 16 * x + y"
proof -
  from assms have y: "take_bit 4 y = y" by (simp add: take_bit_nat_eq_self)
  have "push_bit 4 x AND take_bit 4 y = 0"
    by (auto simp: bit_eq_iff bit_simps)
  then have "push_bit 4 x + y = push_bit 4 x OR y"
    unfolding y by (rule disjunctive_add_eq_or)
  then show ?thesis by (simp add: push_bit_eq_mult)
qed

lemma word_nibbles:
  assumes "x < 16" "y < 16"
  shows "unat (push_bit 4 (of_nat x :: 8 word) OR of_nat y) = 16 * x + y"
proof -
  have "push_bit 4 (of_nat x :: 8 word) OR of_nat y = of_nat (push_bit 4 x OR y)"
    by (simp add: of_nat_or_eq of_nat_push_bit)
  also have "\<dots> = of_nat (16 * x + y)" using assms(2) by (simp add: nat_or)
  finally have "unat (push_bit 4 (of_nat x :: 8 word) OR of_nat y)
      = unat (of_nat (16 * x + y) :: 8 word)"
    by simp
  also have "\<dots> = (16 * x + y) mod 2 ^ LENGTH(8)"
    by (simp only: unat_of_nat)
  also have "\<dots> = 16 * x + y"
    using assms by simp
  finally show ?thesis .
qed

lemma hex_digit_cases:
  "hex_digit c = None \<Longrightarrow> \<not> ishex c"
  "hex_digit c = Some x \<Longrightarrow> ishex c \<and> unhex c = of_nat x \<and> x < 16"
  using hex_table[THEN spec, of c] by auto

lemma decode_byte:
  assumes "hex_digit a = Some x" "hex_digit b = Some y"
  shows "char_of_byte (push_bit 4 (unhex a) OR unhex b) = char_of (16 * x + y)"
proof -
  from hex_digit_cases(2)[OF assms(1)] hex_digit_cases(2)[OF assms(2)]
  have u: "unhex a = of_nat x" "unhex b = of_nat y" and r: "x < 16" "y < 16"
    by auto
  show ?thesis unfolding u char_of_byte_def word_nibbles[OF r] ..
qed

lemma hex_digit_plus_space [simp]:
  "hex_digit CHR ''+'' = None" "hex_digit CHR '' '' = None" "hex_digit CHR ''%'' = None"
  by code_simp+

lemma hex_digit_plus_to_space:
  "hex_digit (if a = CHR ''+'' then CHR '' '' else a) = hex_digit a"
  by simp

text \<open>The scan succeeds exactly when the decoding of the specification does.\<close>

lemma scan_build_spec:
  "(case unescape_scan s of
      Inl e \<Rightarrow> spec_percent_decode (plus_to_space s) = None
    | Inr (n, hasPlus) \<Rightarrow>
        spec_percent_decode (plus_to_space s) = Some (unescape_build s) \<and>
        (n = 0 \<longrightarrow> CHR ''%'' \<notin> set s) \<and> (\<not> hasPlus \<longrightarrow> CHR ''+'' \<notin> set s))"
proof (induction s rule: unescape_scan.induct)
  case 1
  show ?case by (simp add: plus_to_space_def)
next
  case (2 c s)
  show ?case
  proof (cases "c = CHR ''%''")
    case pct: True
    show ?thesis
    proof (cases s)
      case Nil
      with pct show ?thesis by (simp add: plus_to_space_def)
    next
      case (Cons a s1)
      show ?thesis
      proof (cases s1)
        case Nil
        with pct Cons show ?thesis by (simp add: plus_to_space_def)
      next
        case (Cons b rest)
        note s = \<open>s = a # s1\<close> \<open>s1 = b # rest\<close>
        show ?thesis
        proof (cases "hex_digit a")
          case None
          with hex_digit_cases(1)[OF None] pct s show ?thesis
            by (simp add: plus_to_space_def)
        next
          case a: (Some x)
          show ?thesis
          proof (cases "hex_digit b")
            case None
            with hex_digit_cases(1)[OF None] pct s a show ?thesis
              by (simp add: plus_to_space_def)
          next
            case b: (Some y)
            from hex_digit_cases(2)[OF a] hex_digit_cases(2)[OF b]
            have hx: "ishex a" "ishex b" by auto
            have ih: "case unescape_scan rest of
                Inl e \<Rightarrow> spec_percent_decode (plus_to_space rest) = None
              | Inr (n, hasPlus) \<Rightarrow>
                  spec_percent_decode (plus_to_space rest) = Some (unescape_build rest) \<and>
                  (n = 0 \<longrightarrow> CHR ''%'' \<notin> set rest) \<and>
                  (\<not> hasPlus \<longrightarrow> CHR ''+'' \<notin> set rest)"
              using "2.IH"(1)[OF pct s(1) s(2)] hx by simp
            have nplus: "a \<noteq> CHR ''+''" "b \<noteq> CHR ''+''" using a b by auto
            from ih pct s a b hx nplus decode_byte[OF a b] show ?thesis
              by (auto simp: plus_to_space_def split: sum.splits)
          qed
        qed
      qed
    qed
  next
    case npct: False
    show ?thesis
    proof (cases "c = CHR ''+''")
      case True
      with npct "2.IH"(2) show ?thesis
        by (auto simp: plus_to_space_def split: sum.splits)
    next
      case False
      with npct "2.IH"(3) show ?thesis
        by (auto simp: plus_to_space_def split: sum.splits)
    qed
  qed
qed

lemma spec_decode_plain:
  "CHR ''%'' \<notin> set s \<Longrightarrow> spec_percent_decode s = Some s"
  by (induction s) auto

lemma plus_to_space_plain: "CHR ''+'' \<notin> set s \<Longrightarrow> plus_to_space s = s"
  by (induction s) (auto simp: plus_to_space_def)

lemma QueryUnescape_Inl:
  "QueryUnescape s = Inl e \<Longrightarrow> spec_percent_decode (plus_to_space s) = None"
  using scan_build_spec[of s] by (auto simp: QueryUnescape_def split: sum.splits if_splits)

lemma QueryUnescape_Inr:
  assumes "QueryUnescape s = Inr t"
  shows "spec_percent_decode (plus_to_space s) = Some t"
proof (cases "unescape_scan s")
  case (Inl e)
  with assms show ?thesis by (simp add: QueryUnescape_def)
next
  case (Inr p)
  obtain n hasPlus where p: "p = (n, hasPlus)" by (cases p)
  from scan_build_spec[of s] Inr p
  have b: "spec_percent_decode (plus_to_space s) = Some (unescape_build s)"
    and z: "n = 0 \<longrightarrow> CHR ''%'' \<notin> set s" "\<not> hasPlus \<longrightarrow> CHR ''+'' \<notin> set s" by auto
  show ?thesis
  proof (cases "n = 0 \<and> \<not> hasPlus")
    case True
    with z have "plus_to_space s = s" "spec_percent_decode s = Some s"
      by (simp_all add: plus_to_space_plain spec_decode_plain)
    moreover from True Inr p assms have "t = s" by (simp add: QueryUnescape_def)
    ultimately show ?thesis by simp
  next
    case False
    with Inr p assms have "t = unescape_build s" by (auto simp: QueryUnescape_def)
    with b show ?thesis by simp
  qed
qed

lemma QueryUnescape_spec:
  "(spec_percent_decode (plus_to_space s) = None \<longrightarrow> (\<exists>e. QueryUnescape s = Inl e)) \<and>
   (spec_percent_decode (plus_to_space s) = Some t \<longrightarrow> QueryUnescape s = Inr t)"
proof (cases "QueryUnescape s")
  case (Inl e)
  from QueryUnescape_Inl[OF Inl] Inl show ?thesis by simp
next
  case (Inr t')
  from QueryUnescape_Inr[OF Inr] Inr show ?thesis by simp
qed

lemma embedded_decode_fails:
  assumes "spec_percent_decode (plus_to_space (spec_strip_separator (URL_Path r))) = None"
  shows "handleRequest_embedded get r =
     ([Println [''Received request for:'', URL_String r],
       HttpError ''Invalid URL encoding'' 400], None)"
proof -
  from assms QueryUnescape_spec[of "spec_strip_separator (URL_Path r)"]
  obtain e where "QueryUnescape (TrimPrefix (URL_Path r) ''/'') = Inl e"
    by (auto simp: TrimPrefix_slash)
  then show ?thesis by (simp add: handleRequest_embedded_def status_defs)
qed

lemma embedded_decodes:
  assumes "spec_percent_decode (plus_to_space (spec_strip_separator (URL_Path r))) = Some t"
  shows "QueryUnescape (TrimPrefix (URL_Path r) ''/'') = Inr t"
  using assms QueryUnescape_spec[of "spec_strip_separator (URL_Path r)" t]
  by (simp add: TrimPrefix_slash)

lemma embedded_bad_scheme:
  assumes "spec_percent_decode (plus_to_space (spec_strip_separator (URL_Path r))) = Some t"
    "take 7 t \<noteq> ''http://''" "take 8 t \<noteq> ''https://''"
  shows "handleRequest_embedded get r =
     ([Println [''Received request for:'', URL_String r],
       HttpError ''Invalid target URL'' 400], None)"
  using embedded_decodes[OF assms(1)] assms(2,3)
  by (simp add: handleRequest_embedded_def status_defs HasPrefix_schemes)

lemma embedded_forward:
  assumes "spec_percent_decode (plus_to_space (spec_strip_separator (URL_Path r))) = Some t"
    "take 7 t = ''http://'' \<or> take 8 t = ''https://''"
  shows "handleRequest_embedded get r =
     (case get t of
        None \<Rightarrow>
          ([Println [''Received request for:'', URL_String r], OutboundGet t,
            HttpError ''Failed to reach target server'' 502], None)
      | Some resp \<Rightarrow>
          if WriteHeader_ok (StatusCode resp)
          then (Println [''Received request for:'', URL_String r] # OutboundGet t #
                copy_headers (Header resp) @
                [WriteHeader (StatusCode resp), CopyBody (content (Body resp)), BodyClose],
                None)
          else (Println [''Received request for:'', URL_String r] # OutboundGet t #
                copy_headers (Header resp) @ [BodyClose], Some Panic))"
  using embedded_decodes[OF assms(1)] assms(2)
  by (auto simp: handleRequest_embedded_def status_defs HasPrefix_schemes split: option.splits)

lemma outbound_copy_headers: "outbound (copy_headers hs @ es) = outbound es"
  by (induction hs) (auto simp: outbound_def copy_headers_def)

lemma error_replies_copy_headers: "error_replies (copy_headers hs @ es) = error_replies es"
  by (induction hs) (auto simp: error_replies_def copy_headers_def)

lemma outbound_skip:
  "outbound (Println a # es) = outbound es"
  "outbound (OutboundGet u # es) = u # outbound es"
  "outbound [WriteHeader n, CopyBody b, BodyClose] = []"
  "outbound [BodyClose] = []"
  "outbound [HttpError m n] = []"
  by (simp_all add: outbound_def)

lemma error_replies_skip:
  "error_replies (Println a # es) = error_replies es"
  "error_replies (OutboundGet u # es) = error_replies es"
  "error_replies [WriteHeader n, CopyBody b, BodyClose] = []"
  "error_replies [BodyClose] = []"
  by (simp_all add: error_replies_def)

lemma embedded_outbound:
  assumes "spec_percent_decode (plus_to_space (spec_strip_separator (URL_Path r))) = Some t"
    "take 7 t = ''http://'' \<or> take 8 t = ''https://''"
  shows "outbound (fst (handleRequest_embedded get r)) = [t]"
  unfolding embedded_forward[OF assms]
  by (cases "get t") (simp_all add: outbound_skip outbound_copy_headers)

lemma embedded_no_error_reply:
  assumes "spec_percent_decode (plus_to_space (spec_strip_separator (URL_Path r))) = Some t"
    "take 7 t = ''http://'' \<or> take 8 t = ''https://''" "get t \<noteq> None"
  shows "error_replies (fst (handleRequest_embedded get r)) = []"
  unfolding embedded_forward[OF assms(1,2)] using assms(3)
  by (cases "get t") (simp_all add: error_replies_skip error_replies_copy_headers)

lemma example_targets:
  "spec_percent_decode (plus_to_space (spec_strip_separator ''/http%3A%2F%2Fexample.com''))
     = Some ''http://example.com''"
  "spec_percent_decode (plus_to_space (spec_strip_separator ''/http://example.com''))
     = Some ''http://example.com''"
  "take 7 ''http://example.com'' = ''http://''"
  by code_simp+

lemma example_request_facts:
  "spec_percent_decode (plus_to_space (spec_strip_separator (URL_Path req_bad_escape))) = None"
  "spec_percent_decode (plus_to_space (spec_strip_separator (URL_Path req_no_scheme)))
     = Some ''example.com''"
  "take 7 ''example.com'' \<noteq> ''http://''" "take 8 ''example.com'' \<noteq> ''https://''"
  "spec_percent_decode (plus_to_space (spec_strip_separator (URL_Path req_escaped)))
     = Some ''http://example.com''"
  "spec_percent_decode (plus_to_space (spec_strip_separator (URL_Path req_unescaped)))
     = Some ''http://example.com''"
  "URL_Path req_escaped = ''/http%3A%2F%2Fexample.com''"
  "CHR ''+'' \<notin> set (URL_Path req_escaped)"
  "URL_String req_bad_escape = ''/%25zz''"
  "URL_String req_no_scheme = ''/example.com''"
  "URL_String req_escaped = ''/http%253A%252F%252Fexample.com''"
  "net_down ''http://example.com'' = None"
  "net_404 ''http://example.com'' \<noteq> None"
  by code_simp+

subsection \<open>Example states of the caching handler\<close>

lemma consistent_example_hit: "consistent example_hit"
  by (simp add: consistent_def item_key_def example_hit_def)

lemma example_hit_facts:
  "Mapping.lookup (cache example_hit) (URL_String example_req) = Some 0"
  "items example_hit 0 = Some \<lparr>key = ''http://example.com/'', value = [104, 105]\<rparr>"
  by (simp_all add: example_hit_def example_req_def)

lemma global_cache_facts:
  "consistent global_cache"
  "Mapping.lookup (cache global_cache) k = None"
  by (simp_all add: global_cache_def consistent_New) (simp add: NewLRUCache_def)

section \<open>The claims about the handlers\<close>

text \<open>
  Claim C6, as amended. The forwarding handler strips one leading \<open>/\<close> from the request
  path and decodes the rest: every \<open>+\<close> becomes a space and every \<open>%XY\<close> the byte it
  denotes; the decoding fails on a \<open>%\<close> that is not followed by two hexadecimal digits.
  When decoding fails the handler replies 400 with the message \<open>Invalid URL encoding\<close>;
  otherwise, when the decoded string starts with neither \<open>http://\<close> nor \<open>https://\<close>, it
  replies 400 with \<open>Invalid target URL\<close>; otherwise the decoded string is the one URL it
  fetches, and when that fetch fails it replies 502 with \<open>Failed to reach target server\<close>,
  and when it does not fail no error reply is written. On a path without \<open>+\<close> the
  decoding is the percent-decoding of the specification. The path
  \<open>/http%3A%2F%2Fexample.com\<close> leads to a fetch of \<open>http://example.com\<close>, and so does the
  same path when the server has already unescaped it.
\<close>

theorem embedded_url_handler:
  "(spec_percent_decode (plus_to_space (spec_strip_separator (URL_Path r))) = None \<longrightarrow>
      handleRequest_embedded get r =
        ([Println [''Received request for:'', URL_String r],
          HttpError ''Invalid URL encoding'' 400], None)) \<and>
   (spec_percent_decode (plus_to_space (spec_strip_separator (URL_Path r))) = Some t \<and>
    take 7 t \<noteq> ''http://'' \<and> take 8 t \<noteq> ''https://'' \<longrightarrow>
      handleRequest_embedded get r =
        ([Println [''Received request for:'', URL_String r],
          HttpError ''Invalid target URL'' 400], None)) \<and>
   (spec_percent_decode (plus_to_space (spec_strip_separator (URL_Path r))) = Some t \<and>
    (take 7 t = ''http://'' \<or> take 8 t = ''https://'') \<longrightarrow>
      outbound (fst (handleRequest_embedded get r)) = [t] \<and>
      (get t = None \<longrightarrow>
         handleRequest_embedded get r =
           ([Println [''Received request for:'', URL_String r], OutboundGet t,
             HttpError ''Failed to reach target server'' 502], None)) \<and>
      (get t \<noteq> None \<longrightarrow> error_replies (fst (handleRequest_embedded get r)) = [])) \<and>
   (CHR ''+'' \<notin> set (URL_Path r) \<longrightarrow>
      spec_percent_decode (plus_to_space (spec_strip_separator (URL_Path r)))
        = spec_percent_decode (spec_strip_separator (URL_Path r))) \<and>
   (URL_Path r = ''/http%3A%2F%2Fexample.com'' \<or> URL_Path r = ''/http://example.com'' \<longrightarrow>
      outbound (fst (handleRequest_embedded get r)) = [''http://example.com''])"
proof (intro conjI impI)
  assume "spec_percent_decode (plus_to_space (spec_strip_separator (URL_Path r))) = None"
  then show "handleRequest_embedded get r =
        ([Println [''Received request for:'', URL_String r],
          HttpError ''Invalid URL encoding'' 400], None)"
    by (rule embedded_decode_fails)
next
  assume "spec_percent_decode (plus_to_space (spec_strip_separator (URL_Path r))) = Some t \<and>
    take 7 t \<noteq> ''http://'' \<and> take 8 t \<noteq> ''https://''"
  then show "handleRequest_embedded get r =
        ([Println [''Received request for:'', URL_String r],
          HttpError ''Invalid target URL'' 400], None)"
    using embedded_bad_scheme by blast
next
  assume "spec_percent_decode (plus_to_space (spec_strip_separator (URL_Path r))) = Some t \<and>
    (take 7 t = ''http://'' \<or> take 8 t = ''https://'')"
  then have d: "spec_percent_decode (plus_to_space (spec_strip_separator (URL_Path r))) = Some t"
    and sch: "take 7 t = ''http://'' \<or> take 8 t = ''https://''" by auto
  show "outbound (fst (handleRequest_embedded get r)) = [t]"
    by (rule embedded_outbound[OF d sch])
  {
    assume "get t = None"
    with embedded_forward[OF d sch, of get]
    show "handleRequest_embedded get r =
           ([Println [''Received request for:'', URL_String r], OutboundGet t,
             HttpError ''Failed to reach target server'' 502], None)" by simp
  }
  {
    assume "get t \<noteq> None"
    then show "error_replies (fst (handleRequest_embedded get r)) = []"
      by (rule embedded_no_error_reply[OF d sch])
  }
next
  assume "CHR ''+'' \<notin> set (URL_Path r)"
  then have "CHR ''+'' \<notin> set (spec_strip_separator (URL_Path r))"
    by (cases "URL_Path r") (auto simp: spec_strip_separator_def)
  then show "spec_percent_decode (plus_to_space (spec_strip_separator (URL_Path r)))
        = spec_percent_decode (spec_strip_separator (URL_Path r))"
    by (simp add: plus_to_space_plain)
next
  assume "URL_Path r = ''/http%3A%2F%2Fexample.com'' \<or> URL_Path r = ''/http://example.com''"
  then have "spec_percent_decode (plus_to_space (spec_strip_separator (URL_Path r)))
      = Some ''http://example.com''"
    using example_targets(1,2) by auto
  then show "outbound (fst (handleRequest_embedded get r)) = [''http://example.com'']"
    by (rule embedded_outbound) (simp add: example_targets(3))
qed

theorem embedded_url_handler_witness:
  "spec_percent_decode (plus_to_space (spec_strip_separator (URL_Path req_bad_escape))) = None \<and>
   handleRequest_embedded net_down req_bad_escape =
     ([Println [''Received request for:'', ''/%25zz''],
       HttpError ''Invalid URL encoding'' 400], None) \<and>
   spec_percent_decode (plus_to_space (spec_strip_separator (URL_Path req_no_scheme)))
     = Some ''example.com'' \<and>
   take 7 ''example.com'' \<noteq> ''http://'' \<and> take 8 ''example.com'' \<noteq> ''https://'' \<and>
   handleRequest_embedded net_down req_no_scheme =
     ([Println [''Received request for:'', ''/example.com''],
       HttpError ''Invalid target URL'' 400], None) \<and>
   spec_percent_decode (plus_to_space (spec_strip_separator (URL_Path req_escaped)))
     = Some ''http://example.com'' \<and>
   take 7 ''http://example.com'' = ''http://'' \<and>
   net_down ''http://example.com'' = None \<and>
   handleRequest_embedded net_down req_escaped =
     ([Println [''Received request for:'', ''/http%253A%252F%252Fexample.com''],
       OutboundGet ''http://example.com'',
       HttpError ''Failed to reach target server'' 502], None) \<and>
   CHR ''+'' \<notin> set (URL_Path req_escaped) \<and>
   spec_percent_decode (spec_strip_separator (URL_Path req_escaped)) = Some ''http://example.com'' \<and>
   spec_percent_decode (plus_to_space (spec_strip_separator (URL_Path req_unescaped)))
     = Some ''http://example.com'' \<and>
   net_404 ''http://example.com'' \<noteq> None \<and>
   outbound (fst (handleRequest_embedded net_404 req_unescaped)) = [''http://example.com''] \<and>
   error_replies (fst (handleRequest_embedded net_404 req_unescaped)) = []"
proof -
  note f = example_request_facts example_targets(3)
  from embedded_url_handler[where r = req_bad_escape and get = net_down]
  have a: "handleRequest_embedded net_down req_bad_escape =
     ([Println [''Received request for:'', ''/%25zz''],
       HttpError ''Invalid URL encoding'' 400], None)"
    using f by simp
  from embedded_url_handler[where r = req_no_scheme and t = "''example.com''" and get = net_down]
  have b: "handleRequest_embedded net_down req_no_scheme =
     ([Println [''Received request for:'', ''/example.com''],
       HttpError ''Invalid target URL'' 400], None)"
    using f by simp
  from embedded_url_handler[where r = req_escaped and t = "''http://example.com''" and get = net_down]
  have c: "handleRequest_embedded net_down req_escaped =
     ([Println [''Received request for:'', ''/http%253A%252F%252Fexample.com''],
       OutboundGet ''http://example.com'',
       HttpError ''Failed to reach target server'' 502], None)"
    and d: "spec_percent_decode (spec_strip_separator (URL_Path req_escaped))
      = Some ''http://example.com''"
    using f by simp_all
  from embedded_url_handler[where r = req_unescaped and t = "''http://example.com''" and get = net_404]
  have e: "outbound (fst (handleRequest_embedded net_404 req_unescaped)) = [''http://example.com'']"
    "error_replies (fst (handleRequest_embedded net_404 req_unescaped)) = []"
    using f by simp_all
  from a b c d e f show ?thesis by simp
qed

text \<open>
  With percent-decoding alone, as the specification words the step, the target would keep
  its \<open>+\<close>: the path \<open>/http%3A%2F%2Fa.com%2Fx+y\<close> percent-decodes to
  \<open>http://a.com/x+y\<close>, which starts with \<open>http://\<close>, and yet the URL the handler fetches
  is \<open>http://a.com/x y\<close>.
\<close>

theorem embedded_url_handler_counterexample:
  "spec_percent_decode (spec_strip_separator (URL_Path req_plus)) = Some ''http://a.com/x+y'' \<and>
   take 7 ''http://a.com/x+y'' = ''http://'' \<and>
   outbound (fst (handleRequest_embedded net_down req_plus)) = [''http://a.com/x y''] \<and>
   outbound (fst (handleRequest_embedded net_down req_plus)) \<noteq> [''http://a.com/x+y'']"
  by code_simp

text \<open>
  Claim C7. In the caching handler, for a request whose key is not in the cache: when the
  outbound GET fails the handler replies 502 with \<open>Failed to fetch from target\<close> and
  stops, leaving the cache as it was; when the GET succeeds and reading the body fails it
  replies 500 with \<open>Failed to read response\<close> and stops, leaving the cache as it was.
  On a consistent cache the handler always returns, it writes exactly one reply, and the
  error replies it wrote are the 502 one if and only if the GET failed, the 500 one if
  and only if the GET succeeded and the read failed, and none if and only if both
  succeeded.
\<close>

theorem selfurl_error_replies:
  "Mapping.lookup (cache c) (URL_String r) = None \<longrightarrow>
     (client (URL_String r) = None \<longrightarrow>
        handleRequest client c r =
          Inr ([OutboundGet (URL_String r), HttpError ''Failed to fetch from target'' 502], c)) \<and>
     (\<forall>resp. client (URL_String r) = Some resp \<and> fails (Body resp) \<longrightarrow>
        handleRequest client c r =
          Inr ([OutboundGet (URL_String r), HttpError ''Failed to read response'' 500,
                BodyClose], c)) \<and>
     (consistent c \<longrightarrow>
        (\<exists>es c'. handleRequest client c r = Inr (es, c') \<and>
           length (filter is_reply es) = 1 \<and>
           (error_replies es = [(502, ''Failed to fetch from target'')]
              \<longleftrightarrow> client (URL_String r) = None) \<and>
           (error_replies es = [(500, ''Failed to read response'')]
              \<longleftrightarrow> (\<exists>resp. client (URL_String r) = Some resp \<and> fails (Body resp))) \<and>
           (error_replies es = []
              \<longleftrightarrow> (\<exists>resp. client (URL_String r) = Some resp \<and> \<not> fails (Body resp)))))"
proof (intro impI conjI allI)
  assume miss: "Mapping.lookup (cache c) (URL_String r) = None"
  note hm = handleRequest_miss[OF miss, of client]
  {
    assume "client (URL_String r) = None"
    with hm show "handleRequest client c r =
          Inr ([OutboundGet (URL_String r), HttpError ''Failed to fetch from target'' 502], c)"
      by simp
  }
  {
    fix resp assume "client (URL_String r) = Some resp \<and> fails (Body resp)"
    with hm show "handleRequest client c r =
          Inr ([OutboundGet (URL_String r), HttpError ''Failed to read response'' 500,
                BodyClose], c)" by simp
  }
  {
    assume c: "consistent c"
    show "\<exists>es c'. handleRequest client c r = Inr (es, c') \<and>
           length (filter is_reply es) = 1 \<and>
           (error_replies es = [(502, ''Failed to fetch from target'')]
              \<longleftrightarrow> client (URL_String r) = None) \<and>
           (error_replies es = [(500, ''Failed to read response'')]
              \<longleftrightarrow> (\<exists>resp. client (URL_String r) = Some resp \<and> fails (Body resp))) \<and>
           (error_replies es = []
              \<longleftrightarrow> (\<exists>resp. client (URL_String r) = Some resp \<and> \<not> fails (Body resp)))"
    proof (cases "client (URL_String r)")
      case None
      with hm show ?thesis by (simp add: effect_views)
    next
      case (Some resp)
      show ?thesis
      proof (cases "fails (Body resp)")
        case True
        with Some hm show ?thesis by (simp add: effect_views)
      next
        case False
        from Put_consistent[OF c, of "URL_String r" "content (Body resp)"] obtain c2
          where "Put c (URL_String r) (content (Body resp)) = Inr c2" by auto
        with False Some hm show ?thesis by (simp add: effect_views)
      qed
    qed
  }
qed

theorem selfurl_error_replies_witness:
  "Mapping.lookup (cache global_cache) (URL_String example_req) = None \<and>
   consistent global_cache \<and> fails (Body resp_broken) \<and>
   handleRequest (\<lambda>_. None) global_cache example_req =
     Inr ([OutboundGet ''http://example.com/'', HttpError ''Failed to fetch from target'' 502],
          global_cache) \<and>
   handleRequest (\<lambda>_. Some resp_broken) global_cache example_req =
     Inr ([OutboundGet ''http://example.com/'', HttpError ''Failed to read response'' 500,
           BodyClose], global_cache) \<and>
   (\<exists>es c'. handleRequest (\<lambda>_. Some resp_404) global_cache example_req = Inr (es, c') \<and>
      length (filter is_reply es) = 1 \<and> error_replies es = [])"
proof -
  have u: "URL_String example_req = ''http://example.com/''" by (simp add: example_req_def)
  have f: "fails (Body resp_broken)" "\<not> fails (Body resp_404)"
    by (simp_all add: resp_broken_def resp_404_def)
  from selfurl_error_replies[of global_cache example_req "\<lambda>_. None"]
    selfurl_error_replies[of global_cache example_req "\<lambda>_. Some resp_broken"]
    selfurl_error_replies[of global_cache example_req "\<lambda>_. Some resp_404"]
    global_cache_facts u f
  show ?thesis by auto
qed

text \<open>
  Claim C8. In the caching handler, for a request whose key is in a consistent cache, the
  handler prints the hit, writes the value stored in the key's item as the body and
  returns: it issues no outbound GET, sets no status code and no header, and writes no
  error reply; the cache only has the entry moved to the front. The value is the one
  last stored: after \<open>Put(key, v)\<close> the handler writes \<open>v\<close>.
\<close>

theorem selfurl_cache_hit:
  "(consistent c \<and> Mapping.lookup (cache c) (URL_String r) = Some e \<longrightarrow>
      (\<exists>it es c'. items c e = Some it \<and> handleRequest client c r = Inr (es, c') \<and>
         es = [Println [''Cache hit:'', URL_String r], Write (value it)] \<and>
         body_writes es = [value it] \<and> outbound es = [] \<and> filter is_header_call es = [] \<and>
         error_replies es = [] \<and> c' = c\<lparr>list := MoveToFront e (list c)\<rparr>)) \<and>
   (consistent c0 \<and> Put c0 (URL_String r) v = Inr c1 \<longrightarrow>
      handleRequest client c1 r = Inr ([Println [''Cache hit:'', URL_String r], Write v], c1))"
proof (intro conjI impI)
  assume "consistent c \<and> Mapping.lookup (cache c) (URL_String r) = Some e"
  then have c: "consistent c" and lk: "Mapping.lookup (cache c) (URL_String r) = Some e" by auto
  from handleRequest_hit[OF c lk, of client] obtain it :: CacheItem
    where "items c e = Some it"
      "handleRequest client c r =
         Inr ([Println [''Cache hit:'', URL_String r], Write (value it)],
              c\<lparr>list := MoveToFront e (list c)\<rparr>)" by blast
  then show "\<exists>it es c'. items c e = Some it \<and> handleRequest client c r = Inr (es, c') \<and>
         es = [Println [''Cache hit:'', URL_String r], Write (value it)] \<and>
         body_writes es = [value it] \<and> outbound es = [] \<and> filter is_header_call es = [] \<and>
         error_replies es = [] \<and> c' = c\<lparr>list := MoveToFront e (list c)\<rparr>"
    by (simp add: effect_views)
next
  assume "consistent c0 \<and> Put c0 (URL_String r) v = Inr c1"
  then show "handleRequest client c1 r =
      Inr ([Println [''Cache hit:'', URL_String r], Write v], c1)"
    using Put_then_handle by blast
qed

theorem selfurl_cache_hit_witness:
  "consistent example_hit \<and>
   Mapping.lookup (cache example_hit) (URL_String example_req) = Some 0 \<and>
   (\<exists>c'. handleRequest (\<lambda>_. None) example_hit example_req =
      Inr ([Println [''Cache hit:'', ''http://example.com/''], Write [104, 105]], c')) \<and>
   consistent global_cache \<and>
   (\<exists>c1. Put global_cache (URL_String example_req) [7, 8] = Inr c1 \<and>
      handleRequest (\<lambda>_. None) c1 example_req =
        Inr ([Println [''Cache hit:'', ''http://example.com/''], Write [7, 8]], c1))"
proof -
  have u: "URL_String example_req = ''http://example.com/''" by (simp add: example_req_def)
  from Put_consistent[OF global_cache_facts(1), of "URL_String example_req" "[7, 8]"]
  obtain c1 where p: "Put global_cache (URL_String example_req) [7, 8] = Inr c1" by auto
  from selfurl_cache_hit[of example_hit example_req 0 "\<lambda>_. None" global_cache "[7, 8]" c1]
    consistent_example_hit example_hit_facts global_cache_facts(1) p u
  show ?thesis by auto
qed

text \<open>
  Claim C10. In the caching handler, for a request whose key is not in a consistent
  cache, when the outbound GET returns a response whose body is read in full, then
  whatever the status code and the headers of that response are, the handler writes
  the body and stores it under the key, and the next request for the key is answered
  from the cache with exactly that body, without a fetch.
\<close>

theorem selfurl_caches_any_status:
  "consistent c \<and> Mapping.lookup (cache c) (URL_String r) = None \<and> \<not> fails (Body resp) \<longrightarrow>
     (\<exists>c'. (\<forall>code hs client2.
               client2 (URL_String r) = Some (resp\<lparr>StatusCode := code, Header := hs\<rparr>) \<longrightarrow>
               handleRequest client2 c r =
                 Inr ([OutboundGet (URL_String r), Write (content (Body resp)), BodyClose], c')) \<and>
           Put c (URL_String r) (content (Body resp)) = Inr c' \<and>
           peek c' (URL_String r) = Some (content (Body resp)) \<and>
           (\<forall>client3. handleRequest client3 c' r =
              Inr ([Println [''Cache hit:'', URL_String r], Write (content (Body resp))], c')))"
proof (intro impI)
  assume h: "consistent c \<and> Mapping.lookup (cache c) (URL_String r) = None \<and>
   \<not> fails (Body resp)"
  then have c: "consistent c" and miss: "Mapping.lookup (cache c) (URL_String r) = None"
    and ok: "\<not> fails (Body resp)" by auto
  let ?u = "URL_String r" and ?b = "content (Body resp)"
  from Put_then_Get[OF c, of ?u ?b] obtain c'
    where p: "Put c ?u ?b = Inr c'" and g: "Get c' ?u = Inr ((?b, True), c')" by auto
  have first: "handleRequest client2 c r = Inr ([OutboundGet ?u, Write ?b, BodyClose], c')"
    if "client2 ?u = Some (resp\<lparr>StatusCode := code, Header := hs\<rparr>)" for code hs client2
    using handleRequest_miss[OF miss, of client2] that ok p by simp
  have pk: "peek c' ?u = Some ?b"
    using g by (auto simp: Get_def peek_def split: option.splits)
  have later: "handleRequest client3 c' r = Inr ([Println [''Cache hit:'', ?u], Write ?b], c')"
    for client3
    by (rule Put_then_handle[OF c p])
  from first p pk later
  show "\<exists>c'. (\<forall>code hs client2.
               client2 ?u = Some (resp\<lparr>StatusCode := code, Header := hs\<rparr>) \<longrightarrow>
               handleRequest client2 c r = Inr ([OutboundGet ?u, Write ?b, BodyClose], c')) \<and>
           Put c ?u ?b = Inr c' \<and> peek c' ?u = Some ?b \<and>
           (\<forall>client3. handleRequest client3 c' r =
              Inr ([Println [''Cache hit:'', ?u], Write ?b], c'))"
    by blast
qed

theorem selfurl_caches_any_status_witness:
  "consistent global_cache \<and>
   Mapping.lookup (cache global_cache) (URL_String example_req) = None \<and>
   \<not> fails (Body resp_404) \<and> StatusCode resp_404 = 404 \<and>
   (\<exists>c'. handleRequest (\<lambda>_. Some resp_404) global_cache example_req =
            Inr ([OutboundGet ''http://example.com/'', Write [110, 111], BodyClose], c') \<and>
          handleRequest (\<lambda>_. None) c' example_req =
            Inr ([Println [''Cache hit:'', ''http://example.com/''], Write [110, 111]], c'))"
proof -
  have u: "URL_String example_req = ''http://example.com/''" by (simp add: example_req_def)
  have f: "\<not> fails (Body resp_404)" "StatusCode resp_404 = 404"
    "content (Body resp_404) = [110, 111]"
    "resp_404\<lparr>StatusCode := 404, Header := Header resp_404\<rparr> = resp_404"
    by (simp_all add: resp_404_def)
  from selfurl_caches_any_status[of global_cache example_req resp_404] global_cache_facts f
  obtain c' where
    a: "\<forall>code hs client2.
          client2 (URL_String example_req) = Some (resp_404\<lparr>StatusCode := code, Header := hs\<rparr>) \<longrightarrow>
          handleRequest client2 global_cache example_req =
            Inr ([OutboundGet (URL_String example_req), Write (content (Body resp_404)), BodyClose], c')"
    and b: "\<forall>client3. handleRequest client3 c' example_req =
              Inr ([Println [''Cache hit:'', URL_String example_req],
                    Write (content (Body resp_404))], c')"
    by auto
  from a have "client2 (URL_String example_req) =
        Some (resp_404\<lparr>StatusCode := 404, Header := Header resp_404\<rparr>) \<longrightarrow>
      handleRequest client2 global_cache example_req =
        Inr ([OutboundGet (URL_String example_req), Write (content (Body resp_404)), BodyClose], c')"
    for client2 by blast
  from this[of "\<lambda>_. Some resp_404"] f(4)
  have "handleRequest (\<lambda>_. Some resp_404) global_cache example_req =
            Inr ([OutboundGet (URL_String example_req), Write (content (Body resp_404)), BodyClose], c')"
    by simp
  with b[rule_format, of "\<lambda>_. None"] u f global_cache_facts show ?thesis by auto
qed

end
